theory Spec2Isabelle
  imports Main "HOL-Library.Char_ord" "HOL-Library.List_Lexorder" "HOL-Library.Sublist"
begin

section \<open>Data model\<close>

text \<open>
  Exceptions of the program. \<^verbatim>\<open>logic_parser.py\<close> raises only the plain
  \<^verbatim>\<open>Exception(message)\<close>; the value carries the message and nothing else.
  \<^verbatim>\<open>KeyError\<close> is what a dictionary read \<^verbatim>\<open>d[k]\<close> raises on a missing key.
\<close>

datatype error = Exception string | KeyError string

text \<open>
  A token is the dictionary \<^verbatim>\<open>{'type': t}\<close> or \<^verbatim>\<open>{'type': 'IDENTIFIER', 'value': v}\<close>;
  the six values of \<^verbatim>\<open>'type'\<close> that \<^verbatim>\<open>next_token\<close> produces are the constructors.
\<close>

datatype token = T_LPAREN | T_RPAREN | T_AND | T_OR | T_NOT | T_IDENTIFIER string

text \<open>
  A parse-tree node is one of the dictionaries that \<^verbatim>\<open>expr\<close>, \<^verbatim>\<open>term\<close> and
  \<^verbatim>\<open>factor\<close> build.
\<close>

datatype node =
    N_IDENTIFIER string
  | N_NOT node
  | N_AND node node
  | N_OR node node

text \<open>The fields of a \<^verbatim>\<open>LogicParser\<close> object.\<close>

record parser =
  expression :: string
  pos :: nat
  current_token :: "token option"

definition LogicParser :: "string \<Rightarrow> parser" where
  "LogicParser e = \<lparr>expression = e, pos = 0, current_token = None\<rparr>"

section \<open>Tokenizer: \<^verbatim>\<open>LogicParser.next_token\<close>\<close>

text \<open>The loop \<^verbatim>\<open>while self.pos < len(self.expression) and self.expression[self.pos] == ' '\<close>.\<close>

function skip_spaces :: "string \<Rightarrow> nat \<Rightarrow> nat" where
  "skip_spaces e p = (if p < length e \<and> e ! p = CHR '' '' then skip_spaces e (Suc p) else p)"
  by pat_completeness auto
termination
  by (relation "measure (\<lambda>(e, p). length e - p)") auto

declare skip_spaces.simps [simp del]

text \<open>The character classes \<^verbatim>\<open>[a-zA-Z_]\<close> and \<^verbatim>\<open>[a-zA-Z0-9_]\<close>.\<close>

definition is_ident_start :: "char \<Rightarrow> bool" where
  "is_ident_start c =
     ((CHR ''a'' \<le> c \<and> c \<le> CHR ''z'') \<or> (CHR ''A'' \<le> c \<and> c \<le> CHR ''Z'') \<or> c = CHR ''_'')"

definition is_ident_char :: "char \<Rightarrow> bool" where
  "is_ident_char c =
     ((CHR ''a'' \<le> c \<and> c \<le> CHR ''z'') \<or> (CHR ''A'' \<le> c \<and> c \<le> CHR ''Z'')
      \<or> (CHR ''0'' \<le> c \<and> c \<le> CHR ''9'') \<or> c = CHR ''_'')"

text \<open>
  The three calls of \<^verbatim>\<open>re.match\<close>, each on the rest of the expression from the scan
  position; the result is \<^verbatim>\<open>m.group()\<close>, or \<open>None\<close> when there is no match.
  \<^verbatim>\<open>re.match\<close> anchors at the start only, and an alternation takes the first alternative
  that matches.
\<close>

definition match_paren :: "string \<Rightarrow> string option" where
  "match_paren rest =
     (if take 1 rest = ''('' then Some ''(''
      else if take 1 rest = '')'' then Some '')''
      else None)"

definition match_keyword :: "string \<Rightarrow> string option" where
  "match_keyword rest =
     (if take 3 rest = ''AND'' then Some ''AND''
      else if take 2 rest = ''OR'' then Some ''OR''
      else if take 3 rest = ''NOT'' then Some ''NOT''
      else None)"

definition match_identifier :: "string \<Rightarrow> string option" where
  "match_identifier rest =
     (case rest of
        [] \<Rightarrow> None
      | c # cs \<Rightarrow> if is_ident_start c then Some (c # takeWhile is_ident_char cs) else None)"

text \<open>The token \<^verbatim>\<open>{'type': m.group()}\<close> of a keyword match.\<close>

definition keyword_token :: "string \<Rightarrow> token" where
  "keyword_token g = (if g = ''AND'' then T_AND else if g = ''OR'' then T_OR else T_NOT)"

definition next_token :: "parser \<Rightarrow> error + parser" where
  "next_token st =
     (let e = expression st; p = skip_spaces e (pos st) in
      if p \<ge> length e then Inr (st\<lparr>pos := p, current_token := None\<rparr>)
      else
        let rest = drop p e in
        case match_paren rest of
          Some g \<Rightarrow>
            Inr (st\<lparr>pos := p + length g,
                    current_token := Some (if g = ''('' then T_LPAREN else T_RPAREN)\<rparr>)
        | None \<Rightarrow>
            (case match_keyword rest of
               Some g \<Rightarrow> Inr (st\<lparr>pos := p + length g, current_token := Some (keyword_token g)\<rparr>)
             | None \<Rightarrow>
                 (case match_identifier rest of
                    Some g \<Rightarrow>
                      Inr (st\<lparr>pos := p + length g, current_token := Some (T_IDENTIFIER g)\<rparr>)
                  | None \<Rightarrow> Inl (Exception ''Invalid character''))))"

section \<open>Parser: \<^verbatim>\<open>expr\<close>, \<^verbatim>\<open>term\<close>, \<^verbatim>\<open>factor\<close>, \<^verbatim>\<open>parse\<close>\<close>

text \<open>
  The three mutually recursive methods and their two \<^verbatim>\<open>while\<close> loops, with the parser
  object passed and returned. The first argument is fuel: every call spends one unit, and
  \<open>None\<close> means the fuel ran out before the method returned. \<open>Some (Inl e)\<close> is a raised
  exception, \<open>Some (Inr (n, st))\<close> the returned node with the object's state afterwards.
  \<open>expr_while\<close> and \<open>term_while\<close> are the loops, with the local \<^verbatim>\<open>left\<close> as argument.
\<close>

fun expr :: "nat \<Rightarrow> parser \<Rightarrow> (error + node \<times> parser) option"
  and expr_while :: "nat \<Rightarrow> node \<Rightarrow> parser \<Rightarrow> (error + node \<times> parser) option"
  and term_fn :: "nat \<Rightarrow> parser \<Rightarrow> (error + node \<times> parser) option"
  and term_while :: "nat \<Rightarrow> node \<Rightarrow> parser \<Rightarrow> (error + node \<times> parser) option"
  and factor :: "nat \<Rightarrow> parser \<Rightarrow> (error + node \<times> parser) option"
where
  "expr 0 st = None"
| "expr (Suc n) st =
     (case term_fn n st of
        None \<Rightarrow> None
      | Some (Inl e) \<Rightarrow> Some (Inl e)
      | Some (Inr (left, st1)) \<Rightarrow> expr_while n left st1)"
| "expr_while 0 left st = None"
| "expr_while (Suc n) left st =
     (if current_token st = Some T_OR then
        (case next_token st of
           Inl e \<Rightarrow> Some (Inl e)
         | Inr st1 \<Rightarrow>
             (case term_fn n st1 of
                None \<Rightarrow> None
              | Some (Inl e) \<Rightarrow> Some (Inl e)
              | Some (Inr (right, st2)) \<Rightarrow> expr_while n (N_OR left right) st2))
      else Some (Inr (left, st)))"
| "term_fn 0 st = None"
| "term_fn (Suc n) st =
     (case factor n st of
        None \<Rightarrow> None
      | Some (Inl e) \<Rightarrow> Some (Inl e)
      | Some (Inr (left, st1)) \<Rightarrow> term_while n left st1)"
| "term_while 0 left st = None"
| "term_while (Suc n) left st =
     (if current_token st = Some T_AND then
        (case next_token st of
           Inl e \<Rightarrow> Some (Inl e)
         | Inr st1 \<Rightarrow>
             (case factor n st1 of
                None \<Rightarrow> None
              | Some (Inl e) \<Rightarrow> Some (Inl e)
              | Some (Inr (right, st2)) \<Rightarrow> term_while n (N_AND left right) st2))
      else Some (Inr (left, st)))"
| "factor 0 st = None"
| "factor (Suc n) st =
     (if current_token st = Some T_NOT then
        (case next_token st of
           Inl e \<Rightarrow> Some (Inl e)
         | Inr st1 \<Rightarrow>
             (case factor n st1 of
                None \<Rightarrow> None
              | Some (Inl e) \<Rightarrow> Some (Inl e)
              | Some (Inr (right, st2)) \<Rightarrow> Some (Inr (N_NOT right, st2))))
      else if current_token st = Some T_LPAREN then
        (case next_token st of
           Inl e \<Rightarrow> Some (Inl e)
         | Inr st1 \<Rightarrow>
             (case expr n st1 of
                None \<Rightarrow> None
              | Some (Inl e) \<Rightarrow> Some (Inl e)
              | Some (Inr (nd, st2)) \<Rightarrow>
                  if current_token st2 \<noteq> Some T_RPAREN
                  then Some (Inl (Exception ''Missing closing parenthesis''))
                  else (case next_token st2 of
                          Inl e \<Rightarrow> Some (Inl e)
                        | Inr st3 \<Rightarrow> Some (Inr (nd, st3)))))
      else
        (case current_token st of
           Some (T_IDENTIFIER v) \<Rightarrow>
             (case next_token st of
                Inl e \<Rightarrow> Some (Inl e)
              | Inr st1 \<Rightarrow> Some (Inr (N_IDENTIFIER v, st1)))
         | _ \<Rightarrow> Some (Inl (Exception ''Invalid factor''))))"

text \<open>
  \<^verbatim>\<open>parse\<close>: read the first token, then \<^verbatim>\<open>return self.expr()\<close>. The result is the
  returned node together with the state the parser object is left in.
\<close>

definition parse_fuel :: "nat \<Rightarrow> string \<Rightarrow> (error + node \<times> parser) option" where
  "parse_fuel n s =
     (case next_token (LogicParser s) of
        Inl e \<Rightarrow> Some (Inl e)
      | Inr st \<Rightarrow> expr n st)"

text \<open>
  \<open>3 * length s + 6\<close> units of fuel are enough on every string \<open>s\<close>, and more fuel never
  changes the result (both proved below), so \<open>parse\<close> is the run of the method.
\<close>

definition parse :: "string \<Rightarrow> error + node \<times> parser" where
  "parse s = the (parse_fuel (3 * length s + 6) s)"


text \<open>
  The measure behind the fuel bound: the characters not yet scanned, plus one when a token
  has been read and not yet consumed.
\<close>

definition remaining :: "parser \<Rightarrow> nat" where
  "remaining st = length (expression st) - pos st + (if current_token st = None then 0 else 1)"

section \<open>Gates and their evaluation: \<^verbatim>\<open>Gate\<close>\<close>

text \<open>
  A \<^verbatim>\<open>Gate\<close> object has \<^verbatim>\<open>gate_type\<close>, \<^verbatim>\<open>inputs\<close> and \<^verbatim>\<open>gate_id\<close>. The
  constructors are the four shapes \<^verbatim>\<open>_build_circuit\<close> creates: \<^verbatim>\<open>Gate('INPUT', [var_name])\<close>,
  \<^verbatim>\<open>Gate('NOT', [g])\<close>, \<^verbatim>\<open>Gate('AND', [l, r])\<close> and \<^verbatim>\<open>Gate('OR', [l, r])\<close>; the first
  argument is the \<^verbatim>\<open>gate_id\<close> assigned right after creation. Gates are never changed
  later, so a reference to a gate is the gate itself.
\<close>

datatype gate =
    G_INPUT nat string
  | G_NOT nat gate
  | G_AND nat gate gate
  | G_OR nat gate gate

fun gate_id :: "gate \<Rightarrow> nat" where
  "gate_id (G_INPUT i v) = i"
| "gate_id (G_NOT i g) = i"
| "gate_id (G_AND i l r) = i"
| "gate_id (G_OR i l r) = i"

text \<open>The gates in a gate's \<^verbatim>\<open>inputs\<close> list (an input gate holds a variable name there).\<close>

fun children :: "gate \<Rightarrow> gate list" where
  "children (G_INPUT i v) = []"
| "children (G_NOT i g) = [g]"
| "children (G_AND i l r) = [l, r]"
| "children (G_OR i l r) = [l, r]"

text \<open>
  \<^verbatim>\<open>Gate.evaluate\<close>; \<^verbatim>\<open>variable_values\<close> is a dictionary from names to Booleans, and
  \<^verbatim>\<open>variable_values.get(name, False)\<close> is the lookup with default.
\<close>

fun evaluate :: "gate \<Rightarrow> (string \<rightharpoonup> bool) \<Rightarrow> bool" where
  "evaluate (G_INPUT i v) variable_values =
     (case variable_values v of Some b \<Rightarrow> b | None \<Rightarrow> False)"
| "evaluate (G_NOT i g) variable_values = (\<not> evaluate g variable_values)"
| "evaluate (G_AND i l r) variable_values =
     (let left = evaluate l variable_values; right = evaluate r variable_values
      in left \<and> right)"
| "evaluate (G_OR i l r) variable_values =
     (let left = evaluate l variable_values; right = evaluate r variable_values
      in left \<or> right)"

text \<open>
  The same method with its calls recorded: the result, and the \<^verbatim>\<open>gate_id\<close> of every gate
  on which \<^verbatim>\<open>evaluate\<close> is entered, in the order of entry. The statements are those of
  the source: \<^verbatim>\<open>left = ...\<close>, then \<^verbatim>\<open>right = ...\<close>, then the Boolean operator on the
  two values.
\<close>

fun evaluate_calls :: "gate \<Rightarrow> (string \<rightharpoonup> bool) \<Rightarrow> bool \<times> nat list" where
  "evaluate_calls (G_INPUT i v) variable_values =
     ((case variable_values v of Some b \<Rightarrow> b | None \<Rightarrow> False), [i])"
| "evaluate_calls (G_NOT i g) variable_values =
     (let (x, cs) = evaluate_calls g variable_values in (\<not> x, i # cs))"
| "evaluate_calls (G_AND i l r) variable_values =
     (let (left, cl) = evaluate_calls l variable_values;
          (right, cr) = evaluate_calls r variable_values
      in (left \<and> right, i # cl @ cr))"
| "evaluate_calls (G_OR i l r) variable_values =
     (let (left, cl) = evaluate_calls l variable_values;
          (right, cr) = evaluate_calls r variable_values
      in (left \<or> right, i # cl @ cr))"

text \<open>All gates of a gate tree, parent first, left before right.\<close>

fun subgates :: "gate \<Rightarrow> gate list" where
  "subgates (G_INPUT i v) = [G_INPUT i v]"
| "subgates (G_NOT i g) = G_NOT i g # subgates g"
| "subgates (G_AND i l r) = G_AND i l r # subgates l @ subgates r"
| "subgates (G_OR i l r) = G_OR i l r # subgates l @ subgates r"

section \<open>Circuit construction: \<^verbatim>\<open>CircuitGenerator\<close>\<close>

record generator =
  parse_tree :: node
  self_gates :: "gate list"
  input_variables :: "string set"
  gate_counter :: nat

definition CircuitGenerator :: "node \<Rightarrow> generator" where
  "CircuitGenerator tree =
     \<lparr>parse_tree = tree, self_gates = [], input_variables = {}, gate_counter = 0\<rparr>"

text \<open>
  \<^verbatim>\<open>_build_circuit\<close>, with the generator object passed and returned. Each branch creates
  the gate, sets its \<^verbatim>\<open>gate_id\<close> to the counter, increments the counter and appends the
  gate to \<^verbatim>\<open>self.gates\<close>.
\<close>

fun build_circuit :: "node \<Rightarrow> generator \<Rightarrow> gate \<times> generator" where
  "build_circuit (N_IDENTIFIER var_name) g =
     (let g1 = g\<lparr>input_variables := insert var_name (input_variables g)\<rparr>;
          gate = G_INPUT (gate_counter g1) var_name
      in (gate, g1\<lparr>gate_counter := gate_counter g1 + 1, self_gates := self_gates g1 @ [gate]\<rparr>))"
| "build_circuit (N_NOT right) g =
     (let (input_gate, g1) = build_circuit right g;
          gate = G_NOT (gate_counter g1) input_gate
      in (gate, g1\<lparr>gate_counter := gate_counter g1 + 1, self_gates := self_gates g1 @ [gate]\<rparr>))"
| "build_circuit (N_AND left right) g =
     (let (left_gate, g1) = build_circuit left g;
          (right_gate, g2) = build_circuit right g1;
          gate = G_AND (gate_counter g2) left_gate right_gate
      in (gate, g2\<lparr>gate_counter := gate_counter g2 + 1, self_gates := self_gates g2 @ [gate]\<rparr>))"
| "build_circuit (N_OR left right) g =
     (let (left_gate, g1) = build_circuit left g;
          (right_gate, g2) = build_circuit right g1;
          gate = G_OR (gate_counter g2) left_gate right_gate
      in (gate, g2\<lparr>gate_counter := gate_counter g2 + 1, self_gates := self_gates g2 @ [gate]\<rparr>))"

text \<open>
  The dictionary \<^verbatim>\<open>generate\<close> returns. \<^verbatim>\<open>sorted(list(self.input_variables))\<close> sorts
  strings by code point, lexicographically, which is the order of \<open>string\<close> here.
\<close>

record circuit =
  gates :: "gate list"
  output_gate :: gate
  inputs :: "string list"

definition generate :: "generator \<Rightarrow> circuit" where
  "generate g =
     (let (out, g1) = build_circuit (parse_tree g) g
      in \<lparr>gates = self_gates g1, output_gate = out,
          inputs = sorted_list_of_set (input_variables g1)\<rparr>)"

section \<open>Truth table: \<^verbatim>\<open>generate_truth_table\<close>\<close>

text \<open>\<^verbatim>\<open>format(i, 'b')\<close>: the binary digits of \<open>i\<close>, most significant first.\<close>

function format_b :: "nat \<Rightarrow> string" where
  "format_b i =
     (if i < 2 then [if i = 0 then CHR ''0'' else CHR ''1'']
      else format_b (i div 2) @ [if i mod 2 = 0 then CHR ''0'' else CHR ''1''])"
  by pat_completeness auto
termination
  by (relation "measure id") auto

declare format_b.simps [simp del]

text \<open>\<^verbatim>\<open>format(i, f'0{width}b')\<close>: the digits, padded on the left with zeros to the width.\<close>

definition format_0b :: "nat \<Rightarrow> nat \<Rightarrow> string" where
  "format_0b width i = replicate (width - length (format_b i)) CHR ''0'' @ format_b i"

text \<open>
  The loop \<^verbatim>\<open>for j, var in enumerate(inputs): variable_values[var] = binary[j] == '1'\<close>,
  starting from the empty dictionary. \<open>binary\<close> has at least as many characters as
  \<^verbatim>\<open>inputs\<close> has entries, so the index is in range.
\<close>

definition assign_values :: "string list \<Rightarrow> string \<Rightarrow> (string \<rightharpoonup> bool)" where
  "assign_values inps binary =
     foldl (\<lambda>variable_values (j, var). variable_values(var \<mapsto> (binary ! j = CHR ''1'')))
       Map.empty (List.enumerate 0 inps)"

text \<open>
  A row is one dictionary: the entries \<^verbatim>\<open>{var: variable_values[var] for var in inputs}\<close>,
  then \<^verbatim>\<open>row['Output'] = output\<close> stored into the same dictionary. Reading a missing
  key in the comprehension raises \<^verbatim>\<open>KeyError\<close>.
\<close>

type_synonym row = "string \<rightharpoonup> bool"

definition truth_table_row :: "string list \<Rightarrow> gate \<Rightarrow> nat \<Rightarrow> error + row" where
  "truth_table_row inps out i =
     (let num_inputs = length inps;
          binary = format_0b num_inputs i;
          variable_values = assign_values inps binary;
          output = evaluate out variable_values
      in case find (\<lambda>var. variable_values var = None) inps of
           Some var \<Rightarrow> Inl (KeyError var)
         | None \<Rightarrow> Inr ((variable_values |` set inps)(''Output'' \<mapsto> output)))"

text \<open>The \<^verbatim>\<open>for i in range(...)\<close> loop, appending one row per index.\<close>

fun for_range :: "(nat \<Rightarrow> error + row) \<Rightarrow> nat list \<Rightarrow> row list \<Rightarrow> error + row list" where
  "for_range body [] truth_table = Inr truth_table"
| "for_range body (i # is) truth_table =
     (case body i of
        Inl e \<Rightarrow> Inl e
      | Inr row \<Rightarrow> for_range body is (truth_table @ [row]))"

definition generate_truth_table :: "circuit \<Rightarrow> error + row list" where
  "generate_truth_table c =
     (let num_inputs = length (inputs c)
      in for_range (truth_table_row (inputs c) (output_gate c)) [0..<2 ^ num_inputs] [])"

section \<open>The steps of \<^verbatim>\<open>main\<close>\<close>

text \<open>
  Steps 1 to 3 of the \<^verbatim>\<open>try\<close> block of \<^verbatim>\<open>main\<close>: parse, generate the circuit,
  generate the truth table. An exception of any step leaves the block.
\<close>

definition main_steps :: "string \<Rightarrow> error + circuit \<times> row list" where
  "main_steps expression_text =
     (case parse expression_text of
        Inl e \<Rightarrow> Inl e
      | Inr (tree, st) \<Rightarrow>
          (let c = generate (CircuitGenerator tree)
           in case generate_truth_table c of
                Inl e \<Rightarrow> Inl e
              | Inr truth_table \<Rightarrow> Inr (c, truth_table)))"


section \<open>Notions used to state the properties\<close>

text \<open>The gates of a gate tree in post-order: operands first, left before right, then the gate.\<close>

fun postorder :: "gate \<Rightarrow> gate list" where
  "postorder (G_INPUT i v) = [G_INPUT i v]"
| "postorder (G_NOT i g) = postorder g @ [G_NOT i g]"
| "postorder (G_AND i l r) = postorder l @ postorder r @ [G_AND i l r]"
| "postorder (G_OR i l r) = postorder l @ postorder r @ [G_OR i l r]"

text \<open>The identifier occurrences of a parse tree, left to right, repetitions kept.\<close>

fun idents :: "node \<Rightarrow> string list" where
  "idents (N_IDENTIFIER v) = [v]"
| "idents (N_NOT r) = idents r"
| "idents (N_AND l r) = idents l @ idents r"
| "idents (N_OR l r) = idents l @ idents r"

text \<open>The parse tree a gate tree has the shape of: the gate ids forgotten.\<close>

fun node_of :: "gate \<Rightarrow> node" where
  "node_of (G_INPUT i v) = N_IDENTIFIER v"
| "node_of (G_NOT i g) = N_NOT (node_of g)"
| "node_of (G_AND i l r) = N_AND (node_of l) (node_of r)"
| "node_of (G_OR i l r) = N_OR (node_of l) (node_of r)"

text \<open>The variable of every input gate of a list of gates, in the order of the list.\<close>

fun input_names :: "gate list \<Rightarrow> string list" where
  "input_names [] = []"
| "input_names (G_INPUT i v # gs) = v # input_names gs"
| "input_names (g # gs) = input_names gs"

text \<open>Every gate of the list finds the gates of its \<^verbatim>\<open>inputs\<close> earlier in the list.\<close>

definition children_before :: "gate list \<Rightarrow> bool" where
  "children_before gs = (\<forall>i<length gs. set (children (gs ! i)) \<subseteq> set (take i gs))"

text \<open>A string of the shape \<^verbatim>\<open>[a-zA-Z_][a-zA-Z0-9_]*\<close>.\<close>

definition identifier_shaped :: "string \<Rightarrow> bool" where
  "identifier_shaped v =
     (case v of [] \<Rightarrow> False | c # cs \<Rightarrow> is_ident_start c \<and> list_all is_ident_char cs)"

text \<open>Every identifier of the parse tree is identifier-shaped and occurs in the string.\<close>

definition idents_in :: "node \<Rightarrow> string \<Rightarrow> bool" where
  "idents_in nd e = list_all (\<lambda>v. identifier_shaped v \<and> sublist v e) (idents nd)"

text \<open>The same for the token the parser holds, when it is an identifier.\<close>

definition token_in_expression :: "parser \<Rightarrow> bool" where
  "token_in_expression st =
     (case current_token st of
        Some (T_IDENTIFIER v) \<Rightarrow> identifier_shaped v \<and> sublist v (expression st)
      | _ \<Rightarrow> True)"

text \<open>
  Parsing an expression, building its circuit and evaluating the output gate under an
  assignment, as \<^verbatim>\<open>main\<close> and \<^verbatim>\<open>test_circuit_interactively\<close> chain them.
\<close>

definition evaluate_expression :: "string \<Rightarrow> (string \<rightharpoonup> bool) \<Rightarrow> error + bool" where
  "evaluate_expression s variable_values =
     (case parse s of
        Inl e \<Rightarrow> Inl e
      | Inr (tree, st) \<Rightarrow>
          Inr (evaluate (output_gate (generate (CircuitGenerator tree))) variable_values))"

text \<open>
  A parse tree written back as an expression, with the parentheses that precedence requires
  and no others. The level says where the text stands: 0 in the place of an \<^verbatim>\<open>expr\<close>, 1 of a
  \<^verbatim>\<open>term\<close>, 2 of a \<^verbatim>\<open>factor\<close>. An OR is parenthesised unless it stands at level 0, an AND
  when it stands at level 2; the left operand of a binary operator stands at the operator's
  own level, the right operand and the operand of NOT one level higher.
\<close>

definition paren :: "bool \<Rightarrow> string \<Rightarrow> string" where
  "paren b s = (if b then ''('' @ s @ '')'' else s)"

fun unparse :: "nat \<Rightarrow> node \<Rightarrow> string" where
  "unparse lv (N_IDENTIFIER v) = v"
| "unparse lv (N_NOT r) = ''NOT '' @ unparse 2 r"
| "unparse lv (N_AND l r) = paren (1 < lv) (unparse 1 l @ '' AND '' @ unparse 2 r)"
| "unparse lv (N_OR l r) = paren (0 < lv) (unparse 0 l @ '' OR '' @ unparse 1 r)"

text \<open>The truth value of a parse tree; a variable is true when the assignment maps it to true.\<close>

fun eval_node :: "node \<Rightarrow> (string \<rightharpoonup> bool) \<Rightarrow> bool" where
  "eval_node (N_IDENTIFIER v) vals = (vals v = Some True)"
| "eval_node (N_NOT r) vals = (\<not> eval_node r vals)"
| "eval_node (N_AND l r) vals = (eval_node l vals \<and> eval_node r vals)"
| "eval_node (N_OR l r) vals = (eval_node l vals \<or> eval_node r vals)"

text \<open>
  An identifier the tokenizer reads back as one identifier token: identifier-shaped, and not
  beginning with \<^verbatim>\<open>AND\<close>, \<^verbatim>\<open>OR\<close> or \<^verbatim>\<open>NOT\<close>.
\<close>

definition plain_identifier :: "string \<Rightarrow> bool" where
  "plain_identifier v = (identifier_shaped v \<and> match_keyword v = None)"

section \<open>Notions used in the proof of the precedence property\<close>

text \<open>\<^verbatim>\<open>next_token\<close> called with the scan position at \<open>p\<close>; the held token plays no role.\<close>

definition lex_at :: "string \<Rightarrow> nat \<Rightarrow> error + parser" where
  "lex_at e p = next_token \<lparr>expression = e, pos = p, current_token = None\<rparr>"

text \<open>The string \<open>w\<close> stands in \<open>e\<close> from index \<open>p\<close> on; no identifier character at index \<open>q\<close>.\<close>

definition has_at :: "string \<Rightarrow> nat \<Rightarrow> string \<Rightarrow> bool" where
  "has_at e p w = (take (length w) (drop p e) = w)"

definition ends_at :: "string \<Rightarrow> nat \<Rightarrow> bool" where
  "ends_at e q = (length e \<le> q \<or> \<not> is_ident_char (e ! q))"

text \<open>A method returns \<open>r\<close> from state \<open>st\<close>: some amount of fuel gives \<open>r\<close>.\<close>

definition expr_returns :: "parser \<Rightarrow> error + node \<times> parser \<Rightarrow> bool" where
  "expr_returns st r = (\<exists>n. expr n st = Some r)"

definition expr_while_returns :: "node \<Rightarrow> parser \<Rightarrow> error + node \<times> parser \<Rightarrow> bool" where
  "expr_while_returns l st r = (\<exists>n. expr_while n l st = Some r)"

definition term_returns :: "parser \<Rightarrow> error + node \<times> parser \<Rightarrow> bool" where
  "term_returns st r = (\<exists>n. term_fn n st = Some r)"

definition term_while_returns :: "node \<Rightarrow> parser \<Rightarrow> error + node \<times> parser \<Rightarrow> bool" where
  "term_while_returns l st r = (\<exists>n. term_while n l st = Some r)"

definition factor_returns :: "parser \<Rightarrow> error + node \<times> parser \<Rightarrow> bool" where
  "factor_returns st r = (\<exists>n. factor n st = Some r)"

text \<open>
  The text of \<open>e\<close> between \<open>p\<close> and \<open>q\<close> is read as the node \<open>nd\<close>: from the state that holds
  the token at \<open>p\<close>, \<^verbatim>\<open>factor\<close> returns \<open>nd\<close> in the state that holds the token at \<open>q\<close>;
  \<^verbatim>\<open>term\<close> and \<^verbatim>\<open>expr\<close> go on as their loops do from there with \<open>nd\<close> as \<^verbatim>\<open>left\<close>.
\<close>

definition factor_reads :: "string \<Rightarrow> nat \<Rightarrow> nat \<Rightarrow> node \<Rightarrow> bool" where
  "factor_reads e p q nd =
     (\<forall>st'. lex_at e q = Inr st' \<longrightarrow>
        (\<exists>st. lex_at e p = Inr st \<and> factor_returns st (Inr (nd, st'))))"

definition term_reads :: "string \<Rightarrow> nat \<Rightarrow> nat \<Rightarrow> node \<Rightarrow> bool" where
  "term_reads e p q nd =
     (\<forall>st'. lex_at e q = Inr st' \<longrightarrow>
        (\<exists>st. lex_at e p = Inr st \<and>
           (\<forall>res. term_while_returns nd st' res \<longrightarrow> term_returns st res)))"

definition expr_reads :: "string \<Rightarrow> nat \<Rightarrow> nat \<Rightarrow> node \<Rightarrow> bool" where
  "expr_reads e p q nd =
     (\<forall>st'. lex_at e q = Inr st' \<longrightarrow> current_token st' \<noteq> Some T_AND \<longrightarrow>
        (\<exists>st. lex_at e p = Inr st \<and>
           (\<forall>res. expr_while_returns nd st' res \<longrightarrow> expr_returns st res)))"

definition reads_at :: "nat \<Rightarrow> string \<Rightarrow> nat \<Rightarrow> nat \<Rightarrow> node \<Rightarrow> bool" where
  "reads_at lv e p q nd =
     (if lv = 0 then expr_reads e p q nd
      else if lv = 1 then term_reads e p q nd
      else factor_reads e p q nd)"

section \<open>The parser returns: fuel bound\<close>

lemma skip_spaces_ge: "p \<le> skip_spaces e p"
proof (induction e p rule: skip_spaces.induct)
  case (1 e p)
  show ?case
  proof (cases "p < length e \<and> e ! p = CHR '' ''")
    case True
    with 1 have "Suc p \<le> skip_spaces e (Suc p)" by simp
    moreover from True have "skip_spaces e p = skip_spaces e (Suc p)"
      by (subst skip_spaces.simps) simp
    ultimately show ?thesis by simp
  next
    case False
    then have "skip_spaces e p = p" by (subst skip_spaces.simps) auto
    then show ?thesis by simp
  qed
qed

lemma match_paren_length: "match_paren r = Some g \<Longrightarrow> 0 < length g"
  by (auto simp: match_paren_def split: if_splits)

lemma match_keyword_length: "match_keyword r = Some g \<Longrightarrow> 0 < length g"
  by (auto simp: match_keyword_def split: if_splits)

lemma match_identifier_length: "match_identifier r = Some g \<Longrightarrow> 0 < length g"
  by (auto simp: match_identifier_def split: list.splits if_splits)

lemma next_token_expression: "next_token st = Inr st' \<Longrightarrow> expression st' = expression st"
  by (auto simp: next_token_def Let_def split: if_splits option.splits)

lemma next_token_remaining:
  assumes "next_token st = Inr st'" and "current_token st \<noteq> None"
  shows "remaining st' < remaining st"
proof -
  let ?e = "expression st"
  let ?p = "skip_spaces ?e (pos st)"
  have ge: "pos st \<le> ?p" by (rule skip_spaces_ge)
  show ?thesis
  proof (cases "length ?e \<le> ?p")
    case True
    with assms have "st' = st\<lparr>pos := ?p, current_token := None\<rparr>"
      by (simp add: next_token_def Let_def)
    moreover from True have "length ?e - ?p = 0" by simp
    ultimately show ?thesis using assms(2) by (auto simp: remaining_def)
  next
    case False
    with assms(1) have "?p < pos st' \<and> current_token st' \<noteq> None \<and> expression st' = ?e"
      by (auto simp: next_token_def Let_def split: option.splits
               dest!: match_paren_length match_keyword_length match_identifier_length)
    with False ge assms(2) show ?thesis
      unfolding remaining_def by auto
  qed
qed

lemma parser_decrease:
  "expr n st = Some (Inr (nd, st')) \<Longrightarrow> expression st' = expression st \<and> remaining st' < remaining st"
  "expr_while n l st = Some (Inr (nd, st')) \<Longrightarrow> expression st' = expression st \<and> remaining st' \<le> remaining st"
  "term_fn n st = Some (Inr (nd, st')) \<Longrightarrow> expression st' = expression st \<and> remaining st' < remaining st"
  "term_while n l st = Some (Inr (nd, st')) \<Longrightarrow> expression st' = expression st \<and> remaining st' \<le> remaining st"
  "factor n st = Some (Inr (nd, st')) \<Longrightarrow> expression st' = expression st \<and> remaining st' < remaining st"
proof (induction n st and n l st and n st and n l st and n st arbitrary: nd st' and nd st' and nd st' and nd st' and nd st'
       rule: expr_expr_while_term_fn_term_while_factor.induct)
  case (1 st)
  then show ?case by simp
next
  case (2 n st)
  from "2.prems" obtain left st1 where t: "term_fn n st = Some (Inr (left, st1))"
    and w: "expr_while n left st1 = Some (Inr (nd, st'))"
    by (auto split: option.splits sum.splits)
  from "2.IH"(1)[OF t] "2.IH"(2)[OF t refl refl w] show ?case by simp
next
  case (3 left st)
  then show ?case by simp
next
  case (4 n left st)
  show ?case
  proof (cases "current_token st = Some T_OR")
    case True
    with "4.prems" obtain st1 right st2 where nt: "next_token st = Inr st1"
      and t: "term_fn n st1 = Some (Inr (right, st2))"
      and w: "expr_while n (N_OR left right) st2 = Some (Inr (nd, st'))"
      by (auto split: option.splits sum.splits)
    from True nt have "remaining st1 < remaining st" "expression st1 = expression st"
      by (auto intro: next_token_remaining next_token_expression)
    with "4.IH"(1)[OF True nt t] "4.IH"(2)[OF True nt t refl refl w] show ?thesis by simp
  next
    case False
    with "4.prems" show ?thesis by simp
  qed
next
  case (5 st)
  then show ?case by simp
next
  case (6 n st)
  from "6.prems" obtain left st1 where t: "factor n st = Some (Inr (left, st1))"
    and w: "term_while n left st1 = Some (Inr (nd, st'))"
    by (auto split: option.splits sum.splits)
  from "6.IH"(1)[OF t] "6.IH"(2)[OF t refl refl w] show ?case by simp
next
  case (7 left st)
  then show ?case by simp
next
  case (8 n left st)
  show ?case
  proof (cases "current_token st = Some T_AND")
    case True
    with "8.prems" obtain st1 right st2 where nt: "next_token st = Inr st1"
      and t: "factor n st1 = Some (Inr (right, st2))"
      and w: "term_while n (N_AND left right) st2 = Some (Inr (nd, st'))"
      by (auto split: option.splits sum.splits)
    from True nt have "remaining st1 < remaining st" "expression st1 = expression st"
      by (auto intro: next_token_remaining next_token_expression)
    with "8.IH"(1)[OF True nt t] "8.IH"(2)[OF True nt t refl refl w] show ?thesis by simp
  next
    case False
    with "8.prems" show ?thesis by simp
  qed
next
  case (9 st)
  then show ?case by simp
next
  case (10 n st)
  consider (a) "current_token st = Some T_NOT"
    | (b) "current_token st = Some T_LPAREN"
    | (c) v where "current_token st = Some (T_IDENTIFIER v)"
    | (d) "current_token st \<noteq> Some T_NOT" "current_token st \<noteq> Some T_LPAREN" "\<forall>v. current_token st \<noteq> Some (T_IDENTIFIER v)"
    by blast
  then show ?case
  proof cases
    case a
    with "10.prems" obtain st1 right where nt: "next_token st = Inr st1"
      and f: "factor n st1 = Some (Inr (right, st'))"
      by (auto split: option.splits sum.splits)
    from a nt have "remaining st1 < remaining st" "expression st1 = expression st"
      by (auto intro: next_token_remaining next_token_expression)
    with "10.IH"(1)[OF a nt f] show ?thesis by simp
  next
    case b
    with "10.prems" obtain st1 st2 where nt: "next_token st = Inr st1"
      and e: "expr n st1 = Some (Inr (nd, st2))"
      and rp: "current_token st2 = Some T_RPAREN"
      and nt2: "next_token st2 = Inr st'"
      by (auto split: option.splits sum.splits if_splits)
    from b nt have "remaining st1 < remaining st" "expression st1 = expression st"
      by (auto intro: next_token_remaining next_token_expression)
    moreover from rp nt2 have "remaining st' < remaining st2" "expression st' = expression st2"
      by (auto intro: next_token_remaining next_token_expression)
    moreover from b have "current_token st \<noteq> Some T_NOT" by simp
    note "10.IH"(2)[OF this b nt e]
    ultimately show ?thesis by simp
  next
    case c
    with "10.prems" have nt: "next_token st = Inr st'"
      by (auto split: option.splits sum.splits)
    with c show ?thesis
      by (auto intro: next_token_remaining next_token_expression)
  next
    case d
    with "10.prems" show ?thesis
      by (auto split: option.splits token.splits)
  qed
qed


lemma parser_enough_fuel:
  "3 * remaining st + 3 \<le> n \<Longrightarrow> expr n st \<noteq> None"
  "3 * remaining st + 2 \<le> n \<Longrightarrow> expr_while n l st \<noteq> None"
  "3 * remaining st + 2 \<le> n \<Longrightarrow> term_fn n st \<noteq> None"
  "3 * remaining st + 1 \<le> n \<Longrightarrow> term_while n l st \<noteq> None"
  "3 * remaining st + 1 \<le> n \<Longrightarrow> factor n st \<noteq> None"
proof (induction n st and n l st and n st and n l st and n st
       rule: expr_expr_while_term_fn_term_while_factor.induct)
  case (1 st)
  then show ?case by simp
next
  case (2 n st)
  from "2.prems" have t: "term_fn n st \<noteq> None" by (intro "2.IH"(1)) simp
  have "expr_while n left st1 \<noteq> None" if r: "term_fn n st = Some (Inr (left, st1))" for left st1
  proof -
    from parser_decrease(3)[OF r] "2.prems" have "3 * remaining st1 + 2 \<le> n" by simp
    then show ?thesis by (rule "2.IH"(2)[OF r refl refl])
  qed
  with t show ?case by (auto split: option.splits sum.splits)
next
  case (3 left st)
  then show ?case by simp
next
  case (4 n left st)
  show ?case
  proof (cases "current_token st = Some T_OR")
    case True
    have *: "term_fn n st1 \<noteq> None \<and> (\<forall>right st2. term_fn n st1 = Some (Inr (right, st2)) \<longrightarrow>
               expr_while n (N_OR left right) st2 \<noteq> None)"
      if nt: "next_token st = Inr st1" for st1
    proof -
      from True nt have d: "remaining st1 < remaining st" by (auto intro: next_token_remaining)
      with "4.prems" have "3 * remaining st1 + 2 \<le> n" by simp
      then have "term_fn n st1 \<noteq> None" by (rule "4.IH"(1)[OF True nt])
      moreover have "expr_while n (N_OR left right) st2 \<noteq> None"
        if r: "term_fn n st1 = Some (Inr (right, st2))" for right st2
      proof -
        from parser_decrease(3)[OF r] d "4.prems" have "3 * remaining st2 + 2 \<le> n" by simp
        then show ?thesis by (rule "4.IH"(2)[OF True nt r refl refl])
      qed
      ultimately show ?thesis by blast
    qed
    with True show ?thesis by (auto split: option.splits sum.splits)
  next
    case False
    then show ?thesis by simp
  qed
next
  case (5 st)
  then show ?case by simp
next
  case (6 n st)
  from "6.prems" have t: "factor n st \<noteq> None" by (intro "6.IH"(1)) simp
  have "term_while n left st1 \<noteq> None" if r: "factor n st = Some (Inr (left, st1))" for left st1
  proof -
    from parser_decrease(5)[OF r] "6.prems" have "3 * remaining st1 + 1 \<le> n" by simp
    then show ?thesis by (rule "6.IH"(2)[OF r refl refl])
  qed
  with t show ?case by (auto split: option.splits sum.splits)
next
  case (7 left st)
  then show ?case by simp
next
  case (8 n left st)
  show ?case
  proof (cases "current_token st = Some T_AND")
    case True
    have *: "factor n st1 \<noteq> None \<and> (\<forall>right st2. factor n st1 = Some (Inr (right, st2)) \<longrightarrow>
               term_while n (N_AND left right) st2 \<noteq> None)"
      if nt: "next_token st = Inr st1" for st1
    proof -
      from True nt have d: "remaining st1 < remaining st" by (auto intro: next_token_remaining)
      with "8.prems" have "3 * remaining st1 + 1 \<le> n" by simp
      then have "factor n st1 \<noteq> None" by (rule "8.IH"(1)[OF True nt])
      moreover have "term_while n (N_AND left right) st2 \<noteq> None"
        if r: "factor n st1 = Some (Inr (right, st2))" for right st2
      proof -
        from parser_decrease(5)[OF r] d "8.prems" have "3 * remaining st2 + 1 \<le> n" by simp
        then show ?thesis by (rule "8.IH"(2)[OF True nt r refl refl])
      qed
      ultimately show ?thesis by blast
    qed
    with True show ?thesis by (auto split: option.splits sum.splits)
  next
    case False
    then show ?thesis by simp
  qed
next
  case (9 st)
  then show ?case by simp
next
  case (10 n st)
  show ?case
  proof (cases "current_token st = Some T_NOT")
    case True
    have "factor n st1 \<noteq> None" if nt: "next_token st = Inr st1" for st1
    proof -
      from True nt have "remaining st1 < remaining st" by (auto intro: next_token_remaining)
      with "10.prems" have "3 * remaining st1 + 1 \<le> n" by simp
      then show ?thesis by (rule "10.IH"(1)[OF True nt])
    qed
    with True show ?thesis by (auto split: option.splits sum.splits)
  next
    case False
    show ?thesis
    proof (cases "current_token st = Some T_LPAREN")
      case True
      have "expr n st1 \<noteq> None" if nt: "next_token st = Inr st1" for st1
      proof -
        from True nt have "remaining st1 < remaining st" by (auto intro: next_token_remaining)
        with "10.prems" have "3 * remaining st1 + 3 \<le> n" by simp
        then show ?thesis by (rule "10.IH"(2)[OF False True nt])
      qed
      with True show ?thesis by (auto split: option.splits sum.splits)
    next
      case nl: False
      with False show ?thesis by (auto split: option.splits sum.splits token.splits)
    qed
  qed
qed

lemma parser_fuel_mono:
  "expr n st = Some r \<Longrightarrow> n \<le> m \<Longrightarrow> expr m st = Some r"
  "expr_while n l st = Some r \<Longrightarrow> n \<le> m \<Longrightarrow> expr_while m l st = Some r"
  "term_fn n st = Some r \<Longrightarrow> n \<le> m \<Longrightarrow> term_fn m st = Some r"
  "term_while n l st = Some r \<Longrightarrow> n \<le> m \<Longrightarrow> term_while m l st = Some r"
  "factor n st = Some r \<Longrightarrow> n \<le> m \<Longrightarrow> factor m st = Some r"
proof (induction n st and n l st and n st and n l st and n st
       arbitrary: m r and m r and m r and m r and m r
       rule: expr_expr_while_term_fn_term_while_factor.induct)
  case (2 n st)
  from "2.prems"(2) obtain m' where m: "m = Suc m'" and le: "n \<le> m'" by (cases m) auto
  from "2.prems"(1) obtain x where t: "term_fn n st = Some x" by (auto split: option.splits)
  from "2.IH"(1)[OF t le] have t': "term_fn m' st = Some x" .
  show ?case
  proof (cases x)
    case (Inl e)
    with t t' "2.prems"(1) m show ?thesis by auto
  next
    case (Inr p)
    obtain left st1 where p: "p = (left, st1)" by (cases p)
    from t Inr p "2.prems"(1) have w: "expr_while n left st1 = Some r" by simp
    from "2.IH"(2)[OF t[unfolded Inr p] refl refl w le] t' Inr p m show ?thesis by auto
  qed
next
  case (4 n left st)
  from "4.prems"(2) obtain m' where m: "m = Suc m'" and le: "n \<le> m'" by (cases m) auto
  show ?case
  proof (cases "current_token st = Some T_OR")
    case False
    with "4.prems"(1) m show ?thesis by auto
  next
    case True
    show ?thesis
    proof (cases "next_token st")
      case (Inl e)
      with True "4.prems"(1) m show ?thesis by auto
    next
      case nt: (Inr st1)
      from True nt "4.prems"(1) obtain x where t: "term_fn n st1 = Some x" by (auto split: option.splits)
      from "4.IH"(1)[OF True nt t le] have t': "term_fn m' st1 = Some x" .
      show ?thesis
      proof (cases x)
        case (Inl e)
        with True nt t t' "4.prems"(1) m show ?thesis by auto
      next
        case (Inr p)
        obtain right st2 where p: "p = (right, st2)" by (cases p)
        from True nt t Inr p "4.prems"(1) have w: "expr_while n (N_OR left right) st2 = Some r" by simp
        from "4.IH"(2)[OF True nt t[unfolded Inr p] refl refl w le] True nt t' Inr p m show ?thesis by auto
      qed
    qed
  qed
next
  case (6 n st)
  from "6.prems"(2) obtain m' where m: "m = Suc m'" and le: "n \<le> m'" by (cases m) auto
  from "6.prems"(1) obtain x where t: "factor n st = Some x" by (auto split: option.splits)
  from "6.IH"(1)[OF t le] have t': "factor m' st = Some x" .
  show ?case
  proof (cases x)
    case (Inl e)
    with t t' "6.prems"(1) m show ?thesis by auto
  next
    case (Inr p)
    obtain left st1 where p: "p = (left, st1)" by (cases p)
    from t Inr p "6.prems"(1) have w: "term_while n left st1 = Some r" by simp
    from "6.IH"(2)[OF t[unfolded Inr p] refl refl w le] t' Inr p m show ?thesis by auto
  qed
next
  case (8 n left st)
  from "8.prems"(2) obtain m' where m: "m = Suc m'" and le: "n \<le> m'" by (cases m) auto
  show ?case
  proof (cases "current_token st = Some T_AND")
    case False
    with "8.prems"(1) m show ?thesis by auto
  next
    case True
    show ?thesis
    proof (cases "next_token st")
      case (Inl e)
      with True "8.prems"(1) m show ?thesis by auto
    next
      case nt: (Inr st1)
      from True nt "8.prems"(1) obtain x where t: "factor n st1 = Some x" by (auto split: option.splits)
      from "8.IH"(1)[OF True nt t le] have t': "factor m' st1 = Some x" .
      show ?thesis
      proof (cases x)
        case (Inl e)
        with True nt t t' "8.prems"(1) m show ?thesis by auto
      next
        case (Inr p)
        obtain right st2 where p: "p = (right, st2)" by (cases p)
        from True nt t Inr p "8.prems"(1) have w: "term_while n (N_AND left right) st2 = Some r" by simp
        from "8.IH"(2)[OF True nt t[unfolded Inr p] refl refl w le] True nt t' Inr p m show ?thesis by auto
      qed
    qed
  qed
next
  case (10 n st)
  from "10.prems"(2) obtain m' where m: "m = Suc m'" and le: "n \<le> m'" by (cases m) auto
  show ?case
  proof (cases "current_token st = Some T_NOT")
    case True
    show ?thesis
    proof (cases "next_token st")
      case (Inl e)
      with True "10.prems"(1) m show ?thesis by auto
    next
      case nt: (Inr st1)
      from True nt "10.prems"(1) obtain x where t: "factor n st1 = Some x" by (auto split: option.splits)
      from "10.IH"(1)[OF True nt t le] have "factor m' st1 = Some x" .
      with True nt t "10.prems"(1) m show ?thesis by auto
    qed
  next
    case False
    show ?thesis
    proof (cases "current_token st = Some T_LPAREN")
      case True
      show ?thesis
      proof (cases "next_token st")
        case (Inl e)
        with True "10.prems"(1) m show ?thesis by auto
      next
        case nt: (Inr st1)
        from True nt "10.prems"(1) obtain x where t: "expr n st1 = Some x" by (auto split: option.splits)
        from "10.IH"(2)[OF False True nt t le] have "expr m' st1 = Some x" .
        with True nt t "10.prems"(1) m show ?thesis by auto
      qed
    next
      case nl: False
      with False "10.prems"(1) m show ?thesis by auto
    qed
  qed
qed simp_all


text \<open>
  \<open>parse\<close> is total: from \<open>3 * length s + 6\<close> units on, the run returns, and whatever a
  run with any amount of fuel returns is \<open>parse s\<close>.
\<close>

lemma next_token_start_remaining:
  assumes "next_token (LogicParser s) = Inr st"
  shows "remaining st \<le> length s + 1" "expression st = s"
proof -
  from assms have e: "expression st = s"
    by (auto dest: next_token_expression simp: LogicParser_def)
  then show "remaining st \<le> length s + 1" by (auto simp: remaining_def)
  show "expression st = s" by (rule e)
qed

lemma parse_fuel_enough:
  assumes "3 * length s + 6 \<le> n"
  shows "parse_fuel n s = Some (parse s)"
proof (cases "next_token (LogicParser s)")
  case (Inl e)
  then show ?thesis by (simp add: parse_def parse_fuel_def)
next
  case (Inr st)
  from next_token_start_remaining(1)[OF Inr] have "3 * remaining st + 3 \<le> 3 * length s + 6" by simp
  from parser_enough_fuel(1)[OF this] obtain r where r: "expr (3 * length s + 6) st = Some r" by blast
  from parser_fuel_mono(1)[OF r assms] have "expr n st = Some r" .
  with r Inr show ?thesis by (simp add: parse_def parse_fuel_def)
qed

lemma parse_fuel_result:
  assumes "parse_fuel n s = Some r"
  shows "r = parse s"
proof (cases "next_token (LogicParser s)")
  case (Inl e)
  with assms show ?thesis by (simp add: parse_def parse_fuel_def)
next
  case (Inr st)
  with assms have "expr n st = Some r" by (simp add: parse_fuel_def)
  from parser_fuel_mono(1)[OF this, of "max n (3 * length s + 6)"] Inr
  have "parse_fuel (max n (3 * length s + 6)) s = Some r" by (simp add: parse_fuel_def)
  moreover have "parse_fuel (max n (3 * length s + 6)) s = Some (parse s)"
    by (rule parse_fuel_enough) simp
  ultimately show ?thesis by simp
qed

lemma match_paren_None:
  "p < length e \<Longrightarrow> match_paren (drop p e) = None \<longleftrightarrow> e ! p \<noteq> CHR ''('' \<and> e ! p \<noteq> CHR '')''"
  by (auto simp: match_paren_def take_Suc_conv_app_nth hd_drop_conv_nth take_Suc)

lemma match_identifier_None:
  "p < length e \<Longrightarrow> match_identifier (drop p e) = None \<longleftrightarrow> \<not> is_ident_start (e ! p)"
  by (cases "drop p e") (auto simp: match_identifier_def hd_drop_conv_nth[symmetric])

lemma match_keyword_ident_start:
  "p < length e \<Longrightarrow> match_keyword (drop p e) = Some g \<Longrightarrow> is_ident_start (e ! p)"
  by (cases "drop p e") (auto simp: match_keyword_def is_ident_start_def hd_drop_conv_nth[symmetric] split: if_splits)


section \<open>Tokenizer properties\<close>

text \<open>
  C1. The claim: the keywords are recognised only as exact matches, so a word that merely
  begins with \<^verbatim>\<open>AND\<close>, \<^verbatim>\<open>OR\<close> or \<^verbatim>\<open>NOT\<close>, such as \<^verbatim>\<open>ANDY\<close>, is one identifier
  token. The code matches \<^verbatim>\<open>AND|OR|NOT\<close> as a prefix, before the identifier rule: on
  \<^verbatim>\<open>ANDY\<close> the first call of \<^verbatim>\<open>next_token\<close> yields the keyword token \<^verbatim>\<open>AND\<close> and stops
  after three characters, the second yields the identifier \<^verbatim>\<open>Y\<close>; and \<^verbatim>\<open>NOTE\<close> parses as
  the negation of the variable \<^verbatim>\<open>E\<close>.
\<close>

theorem C1_keyword_prefix_is_split:
  "next_token (LogicParser ''ANDY'') =
     Inr \<lparr>expression = ''ANDY'', pos = 3, current_token = Some T_AND\<rparr>
   \<and> next_token \<lparr>expression = ''ANDY'', pos = 3, current_token = Some T_AND\<rparr> =
     Inr \<lparr>expression = ''ANDY'', pos = 4, current_token = Some (T_IDENTIFIER ''Y'')\<rparr>
   \<and> parse ''NOTE'' =
     Inr (N_NOT (N_IDENTIFIER ''E''), \<lparr>expression = ''NOTE'', pos = 4, current_token = None\<rparr>)"
  by code_simp

text \<open>
  C9 as stated: the error of the tokenizer carries the offending position. The exception is
  \<^verbatim>\<open>Exception("Invalid character")\<close>, the same value wherever the character stands: at
  index 2 of \<^verbatim>\<open>A & B\<close> (scanning on from index 1) and at index 0 of \<^verbatim>\<open>&\<close>.
\<close>

theorem C9_error_has_no_position:
  "next_token \<lparr>expression = ''A & B'', pos = 1, current_token = Some (T_IDENTIFIER ''A'')\<rparr> =
     next_token (LogicParser ''&'')
   \<and> skip_spaces ''A & B'' 1 = 2 \<and> skip_spaces ''&'' 0 = 0"
  by code_simp

text \<open>
  C9 as amended. \<^verbatim>\<open>next_token\<close> raises exactly when, after the spaces, a character is
  left that is neither a parenthesis nor a letter or underscore (so: \<^verbatim>\<open>&\<close>, \<^verbatim>\<open>|\<close>, a
  digit, any character beyond ASCII), and what it raises is \<^verbatim>\<open>Exception("Invalid character")\<close>,
  with no position in it.
\<close>

theorem C9_invalid_character:
  "next_token st = Inl e \<longleftrightarrow>
     e = Exception ''Invalid character'' \<and>
     skip_spaces (expression st) (pos st) < length (expression st) \<and>
     (let c = expression st ! skip_spaces (expression st) (pos st)
      in c \<noteq> CHR ''('' \<and> c \<noteq> CHR '')'' \<and> \<not> is_ident_start c)"
proof -
  let ?e = "expression st"
  let ?p = "skip_spaces ?e (pos st)"
  show ?thesis
  proof (cases "?p < length ?e")
    case False
    then show ?thesis by (simp add: next_token_def Let_def)
  next
    case True
    note mp = match_paren_None[OF True] and mi = match_identifier_None[OF True]
    have mk: "match_keyword (drop ?p ?e) = None" if "\<not> is_ident_start (?e ! ?p)"
      using match_keyword_ident_start[OF True] that by (cases "match_keyword (drop ?p ?e)") auto
    show ?thesis
    proof (cases "match_paren (drop ?p ?e)")
      case (Some g)
      with True mp show ?thesis by (auto simp: next_token_def Let_def)
    next
      case None
      note pn = None
      show ?thesis
      proof (cases "is_ident_start (?e ! ?p)")
        case True
        with mi obtain g where "match_identifier (drop ?p ?e) = Some g" by auto
        with True pn \<open>?p < length ?e\<close> show ?thesis
          by (auto simp: next_token_def Let_def split: option.splits)
      next
        case False
        with mi mk have "match_identifier (drop ?p ?e) = None" "match_keyword (drop ?p ?e) = None" by auto
        with False pn mp \<open>?p < length ?e\<close> show ?thesis
          by (auto simp: next_token_def Let_def)
      qed
    qed
  qed
qed

text \<open>
  The theorem at the scenario of the spec: in \<^verbatim>\<open>A & B\<close>, the call that follows the
  identifier \<^verbatim>\<open>A\<close> skips the space, stands at index 2 on \<^verbatim>\<open>&\<close> and raises; so does the
  whole parse; the same for \<^verbatim>\<open>|\<close>, for a digit at the start and for a byte beyond ASCII.
\<close>

theorem C9_invalid_character_witness:
  "next_token \<lparr>expression = ''A & B'', pos = 1, current_token = Some (T_IDENTIFIER ''A'')\<rparr> =
     Inl (Exception ''Invalid character'')
   \<and> skip_spaces ''A & B'' 1 = 2 \<and> ''A & B'' ! 2 = CHR ''&''
   \<and> parse ''A & B'' = Inl (Exception ''Invalid character'')
   \<and> parse ''A | B'' = Inl (Exception ''Invalid character'')
   \<and> parse ''1A'' = Inl (Exception ''Invalid character'')
   \<and> parse [CHR ''A'', CHR '' '', CHR 0xE2, CHR 0x88, CHR 0xA7, CHR '' '', CHR ''B''] =
       Inl (Exception ''Invalid character'')"
proof -
  let ?st = "\<lparr>expression = ''A & B'', pos = 1, current_token = Some (T_IDENTIFIER ''A'')\<rparr>"
  have p: "skip_spaces ''A & B'' 1 = 2" by code_simp
  have c: "\<not> is_ident_start CHR ''&''" by code_simp
  have "next_token ?st = Inl (Exception ''Invalid character'')"
    using C9_invalid_character [of ?st "Exception ''Invalid character''"] p c by simp
  moreover have "''A & B'' ! 2 = CHR ''&''" by simp
  moreover have "parse ''A & B'' = Inl (Exception ''Invalid character'')" by code_simp
  moreover have "parse ''A | B'' = Inl (Exception ''Invalid character'')" by code_simp
  moreover have "parse ''1A'' = Inl (Exception ''Invalid character'')" by code_simp
  moreover have "parse [CHR ''A'', CHR '' '', CHR 0xE2, CHR 0x88, CHR 0xA7, CHR '' '', CHR ''B''] =
       Inl (Exception ''Invalid character'')" by code_simp
  ultimately show ?thesis using p by simp
qed

section \<open>Parser properties\<close>

text \<open>
  C2. The claim: when tokens remain after the top-level expression, \<^verbatim>\<open>parse\<close> fails.
  \<^verbatim>\<open>parse\<close> returns \<^verbatim>\<open>self.expr()\<close> and never looks at the token left in
  \<^verbatim>\<open>current_token\<close>: on \<^verbatim>\<open>A XOR B\<close> (a case of the program's own edge-case
  demonstration, which expects an exception) it returns the node of \<^verbatim>\<open>A\<close> with the
  identifier \<^verbatim>\<open>XOR\<close> unconsumed, and on \<^verbatim>\<open>A )\<close> with the closing parenthesis unconsumed.
\<close>

theorem C2_trailing_tokens_accepted:
  "parse ''A XOR B'' =
     Inr (N_IDENTIFIER ''A'',
          \<lparr>expression = ''A XOR B'', pos = 5, current_token = Some (T_IDENTIFIER ''XOR'')\<rparr>)
   \<and> parse ''A )'' =
     Inr (N_IDENTIFIER ''A'', \<lparr>expression = ''A )'', pos = 3, current_token = Some T_RPAREN\<rparr>)"
  by code_simp

text \<open>
  C5. Parsing the empty string raises: the first \<^verbatim>\<open>next_token\<close> leaves no token, and
  \<^verbatim>\<open>factor\<close> raises \<^verbatim>\<open>Exception("Invalid factor")\<close>. No node is returned, and the steps
  of \<^verbatim>\<open>main\<close> end with that exception before any circuit is generated.
\<close>

theorem C5_empty_input_fails:
  "parse '''' = Inl (Exception ''Invalid factor'')
   \<and> main_steps '''' = Inl (Exception ''Invalid factor'')"
proof -
  have "parse '''' = Inl (Exception ''Invalid factor'')" by code_simp
  then show ?thesis by (simp add: main_steps_def)
qed

section \<open>Circuit construction properties\<close>

lemma input_names_append: "input_names (xs @ ys) = input_names xs @ input_names ys"
  by (induction xs rule: input_names.induct) auto

lemma postorder_last: "postorder g \<noteq> [] \<and> last (postorder g) = g"
  by (cases g) auto

lemma postorder_self: "g \<in> set (postorder g)"
  by (cases g) auto

lemma input_names_postorder: "input_names (postorder out) = idents (node_of out)"
  by (induction out) (auto simp: input_names_append)

lemma upt_split3: "[k..<k + (a + b + 1)] = [k..<k + a] @ [k + a..<k + a + b] @ [k + a + (b::nat)]"
proof -
  have "[k..<(k + a) + (b + 1)] = [k..<k + a] @ [k + a..<(k + a) + (b + 1)]"
    by (rule upt_add_eq_append) simp
  moreover have "[k + a..<(k + a) + (b + 1)] = [k + a..<k + a + b] @ [k + a + b]"
    by simp
  moreover have "k + (a + b + 1) = (k + a) + (b + 1)" by simp
  ultimately show ?thesis by metis
qed

lemma build_circuit_spec:
  "build_circuit n g = (out, g') \<Longrightarrow>
     self_gates g' = self_gates g @ postorder out
   \<and> gate_counter g' = gate_counter g + length (postorder out)
   \<and> map gate_id (postorder out) = [gate_counter g..<gate_counter g + length (postorder out)]
   \<and> node_of out = n
   \<and> input_variables g' = input_variables g \<union> set (idents n)
   \<and> parse_tree g' = parse_tree g"
proof (induction n arbitrary: g out g')
  case (N_IDENTIFIER v)
  then show ?case by (auto simp: Let_def)
next
  case (N_NOT r)
  obtain ig g1 where b: "build_circuit r g = (ig, g1)" by (cases "build_circuit r g")
  from N_NOT.IH[OF b] N_NOT.prems b show ?case
    by (auto simp: Let_def)
next
  case (N_AND l r)
  obtain lg g1 where b1: "build_circuit l g = (lg, g1)" by (cases "build_circuit l g")
  obtain rg g2 where b2: "build_circuit r g1 = (rg, g2)" by (cases "build_circuit r g1")
  note i1 = N_AND.IH(1)[OF b1] and i2 = N_AND.IH(2)[OF b2]
  let ?k = "gate_counter g" and ?a = "length (postorder lg)" and ?b = "length (postorder rg)"
  from N_AND.prems b1 b2 have out: "out = G_AND (gate_counter g2) lg rg"
    and g': "g' = g2\<lparr>gate_counter := gate_counter g2 + 1, self_gates := self_gates g2 @ [out]\<rparr>"
    by (auto simp: Let_def)
  from i1 i2 have c2: "gate_counter g2 = ?k + ?a + ?b" by simp
  have "[?k..<?k + (?a + ?b + 1)] = [?k..<?k + ?a] @ [?k + ?a..<?k + ?a + ?b] @ [?k + ?a + ?b]"
    by (rule upt_split3)
  also have "\<dots> = map gate_id (postorder lg) @ map gate_id (postorder rg) @ [gate_id out]"
    using i1 i2 c2 by (simp add: out)
  finally have sp: "[?k..<?k + (?a + ?b + 1)] =
      map gate_id (postorder lg) @ map gate_id (postorder rg) @ [gate_id out]" .
  have lo: "length (postorder out) = ?a + ?b + 1" by (simp add: out)
  have mo: "map gate_id (postorder out) =
      map gate_id (postorder lg) @ map gate_id (postorder rg) @ [gate_id out]" by (simp add: out)
  have ids: "map gate_id (postorder out) = [?k..<?k + length (postorder out)]"
    unfolding lo mo by (rule sp[symmetric])
  have "self_gates g' = self_gates g @ postorder out"
    using i1 i2 by (simp add: g') (simp add: out)
  moreover have "gate_counter g' = ?k + length (postorder out)"
    using c2 by (simp add: g') (simp add: out)
  moreover have "node_of out = N_AND l r" using i1 i2 by (simp add: out)
  moreover have "input_variables g' = input_variables g \<union> set (idents (N_AND l r))"
    using i1 i2 by (auto simp: g')
  moreover have "parse_tree g' = parse_tree g" using i1 i2 by (simp add: g')
  ultimately show ?case using ids by blast
next
  case (N_OR l r)
  obtain lg g1 where b1: "build_circuit l g = (lg, g1)" by (cases "build_circuit l g")
  obtain rg g2 where b2: "build_circuit r g1 = (rg, g2)" by (cases "build_circuit r g1")
  note i1 = N_OR.IH(1)[OF b1] and i2 = N_OR.IH(2)[OF b2]
  let ?k = "gate_counter g" and ?a = "length (postorder lg)" and ?b = "length (postorder rg)"
  from N_OR.prems b1 b2 have out: "out = G_OR (gate_counter g2) lg rg"
    and g': "g' = g2\<lparr>gate_counter := gate_counter g2 + 1, self_gates := self_gates g2 @ [out]\<rparr>"
    by (auto simp: Let_def)
  from i1 i2 have c2: "gate_counter g2 = ?k + ?a + ?b" by simp
  have "[?k..<?k + (?a + ?b + 1)] = [?k..<?k + ?a] @ [?k + ?a..<?k + ?a + ?b] @ [?k + ?a + ?b]"
    by (rule upt_split3)
  also have "\<dots> = map gate_id (postorder lg) @ map gate_id (postorder rg) @ [gate_id out]"
    using i1 i2 c2 by (simp add: out)
  finally have sp: "[?k..<?k + (?a + ?b + 1)] =
      map gate_id (postorder lg) @ map gate_id (postorder rg) @ [gate_id out]" .
  have lo: "length (postorder out) = ?a + ?b + 1" by (simp add: out)
  have mo: "map gate_id (postorder out) =
      map gate_id (postorder lg) @ map gate_id (postorder rg) @ [gate_id out]" by (simp add: out)
  have ids: "map gate_id (postorder out) = [?k..<?k + length (postorder out)]"
    unfolding lo mo by (rule sp[symmetric])
  have "self_gates g' = self_gates g @ postorder out"
    using i1 i2 by (simp add: g') (simp add: out)
  moreover have "gate_counter g' = ?k + length (postorder out)"
    using c2 by (simp add: g') (simp add: out)
  moreover have "node_of out = N_OR l r" using i1 i2 by (simp add: out)
  moreover have "input_variables g' = input_variables g \<union> set (idents (N_OR l r))"
    using i1 i2 by (auto simp: g')
  moreover have "parse_tree g' = parse_tree g" using i1 i2 by (simp add: g')
  ultimately show ?case using ids by blast
qed

lemma children_before_append:
  assumes "children_before xs" "children_before ys"
  shows "children_before (xs @ ys)"
  unfolding children_before_def
proof (intro allI impI)
  fix i assume i: "i < length (xs @ ys)"
  show "set (children ((xs @ ys) ! i)) \<subseteq> set (take i (xs @ ys))"
  proof (cases "i < length xs")
    case True
    with assms(1) show ?thesis by (auto simp: children_before_def nth_append)
  next
    case False
    with i have "i - length xs < length ys" by simp
    with assms(2) have "set (children (ys ! (i - length xs))) \<subseteq> set (take (i - length xs) ys)"
      by (auto simp: children_before_def)
    with False show ?thesis by (auto simp: nth_append)
  qed
qed

lemma children_before_snoc:
  assumes "children_before xs" "set (children g) \<subseteq> set xs"
  shows "children_before (xs @ [g])"
  unfolding children_before_def
proof (intro allI impI)
  fix i assume i: "i < length (xs @ [g])"
  show "set (children ((xs @ [g]) ! i)) \<subseteq> set (take i (xs @ [g]))"
  proof (cases "i < length xs")
    case True
    with assms(1) show ?thesis by (auto simp: children_before_def nth_append)
  next
    case False
    with i have "i = length xs" by simp
    with assms(2) show ?thesis by (auto simp: nth_append)
  qed
qed

lemma children_before_postorder: "children_before (postorder out)"
proof (induction out)
  case (G_INPUT i v)
  show ?case by (simp add: children_before_def)
next
  case (G_NOT i g)
  from children_before_snoc[OF G_NOT.IH, of "G_NOT i g"] show ?case
    by (simp add: postorder_self)
next
  case (G_AND i l r)
  from children_before_snoc[OF children_before_append[OF G_AND.IH], of "G_AND i l r"] show ?case
    by (simp add: postorder_self)
next
  case (G_OR i l r)
  from children_before_snoc[OF children_before_append[OF G_OR.IH], of "G_OR i l r"] show ?case
    by (simp add: postorder_self)
qed

lemma generate_spec:
  assumes "c = generate (CircuitGenerator ast)"
  shows "gates c = postorder (output_gate c)"
    and "map gate_id (gates c) = [0..<length (gates c)]"
    and "node_of (output_gate c) = ast"
    and "inputs c = sorted_list_of_set (set (idents ast))"
proof -
  obtain out g' where b: "build_circuit ast (CircuitGenerator ast) = (out, g')"
    by (cases "build_circuit ast (CircuitGenerator ast)")
  from build_circuit_spec[OF b] have s: "self_gates g' = postorder out"
    "map gate_id (postorder out) = [0..<length (postorder out)]" "node_of out = ast"
    "input_variables g' = set (idents ast)"
    by (auto simp: CircuitGenerator_def)
  from b have c: "c = \<lparr>gates = self_gates g', output_gate = out, inputs = sorted_list_of_set (input_variables g')\<rparr>"
    by (simp add: assms generate_def CircuitGenerator_def)
  from s show "gates c = postorder (output_gate c)" "map gate_id (gates c) = [0..<length (gates c)]"
    "node_of (output_gate c) = ast" "inputs c = sorted_list_of_set (set (idents ast))"
    unfolding c by simp_all
qed

lemma children_have_smaller_ids:
  assumes ids: "map gate_id gs = [0..<length gs]" and cb: "children_before gs"
    and i: "i < length gs" and ch: "ch \<in> set (children (gs ! i))"
  shows "gate_id ch < i \<and> gs ! gate_id ch = ch \<and> gate_id (gs ! i) = i"
proof -
  have nth_id: "gate_id (gs ! j) = j" if "j < length gs" for j
  proof -
    from that have "map gate_id gs ! j = gate_id (gs ! j)" by simp
    with ids that show ?thesis by simp
  qed
  from cb i ch have "ch \<in> set (take i gs)" by (auto simp: children_before_def)
  then obtain j where j: "j < length (take i gs)" "take i gs ! j = ch"
    by (auto simp: in_set_conv_nth)
  with i have "j < i" "gs ! j = ch" by auto
  with i nth_id[of j] nth_id[OF i] show ?thesis by auto
qed

text \<open>
  C7. In the circuit built from any parse tree, \<^verbatim>\<open>gates\<close> is the post-order of the output
  gate's tree, which has the shape of the parse tree; the gate ids are \<open>0, 1, 2, ...\<close> along
  the list, so each gate's id is its index; and every gate in the \<^verbatim>\<open>inputs\<close> of a gate has
  a smaller id than that gate and stands at that smaller index of the list. Construction
  order is a topological order.
\<close>

theorem C7_gate_ids_postorder:
  "let c = generate (CircuitGenerator ast) in
     gates c = postorder (output_gate c)
   \<and> node_of (output_gate c) = ast
   \<and> map gate_id (gates c) = [0..<length (gates c)]
   \<and> (\<forall>i<length (gates c). \<forall>ch\<in>set (children (gates c ! i)).
          gate_id ch < gate_id (gates c ! i) \<and> gate_id ch < i \<and> gates c ! gate_id ch = ch)"
proof -
  define c where "c = generate (CircuitGenerator ast)"
  note s = generate_spec[OF c_def]
  from s(1) have cb: "children_before (gates c)" by (simp add: children_before_postorder)
  have "gate_id ch < gate_id (gates c ! i) \<and> gate_id ch < i \<and> gates c ! gate_id ch = ch"
    if "i < length (gates c)" "ch \<in> set (children (gates c ! i))" for i ch
    using children_have_smaller_ids[OF s(2) cb that] by simp
  with s(1,2,3) show ?thesis unfolding Let_def c_def[symmetric] by blast
qed

text \<open>
  The theorem on the tree of \<^verbatim>\<open>B AND A OR NOT B\<close>: the gate at index 2 is the AND gate, and
  its right operand, the input gate of \<^verbatim>\<open>A\<close>, has id 1 and stands at index 1.
\<close>

theorem C7_gate_ids_postorder_witness:
  "gates (generate (CircuitGenerator
      (N_OR (N_AND (N_IDENTIFIER ''B'') (N_IDENTIFIER ''A'')) (N_NOT (N_IDENTIFIER ''B''))))) ! 2 =
     G_AND 2 (G_INPUT 0 ''B'') (G_INPUT 1 ''A'')
   \<and> gate_id (G_INPUT 1 ''A'') < 2
   \<and> gates (generate (CircuitGenerator
      (N_OR (N_AND (N_IDENTIFIER ''B'') (N_IDENTIFIER ''A'')) (N_NOT (N_IDENTIFIER ''B'')))))
        ! gate_id (G_INPUT 1 ''A'') = G_INPUT 1 ''A''"
proof -
  let ?t = "N_OR (N_AND (N_IDENTIFIER ''B'') (N_IDENTIFIER ''A'')) (N_NOT (N_IDENTIFIER ''B''))"
  have g: "gates (generate (CircuitGenerator ?t)) =
      [G_INPUT 0 ''B'', G_INPUT 1 ''A'', G_AND 2 (G_INPUT 0 ''B'') (G_INPUT 1 ''A''),
       G_INPUT 3 ''B'', G_NOT 4 (G_INPUT 3 ''B''),
       G_OR 5 (G_AND 2 (G_INPUT 0 ''B'') (G_INPUT 1 ''A'')) (G_NOT 4 (G_INPUT 3 ''B''))]"
    by (simp add: generate_def CircuitGenerator_def Let_def)
  have i: "2 < length (gates (generate (CircuitGenerator ?t)))"
    and ch: "G_INPUT 1 ''A'' \<in> set (children (gates (generate (CircuitGenerator ?t)) ! 2))"
    by (simp_all add: g)
  from C7_gate_ids_postorder [of ?t]
  have "\<forall>i<length (gates (generate (CircuitGenerator ?t))).
          \<forall>ch\<in>set (children (gates (generate (CircuitGenerator ?t)) ! i)).
            gate_id ch < gate_id (gates (generate (CircuitGenerator ?t)) ! i) \<and> gate_id ch < i
            \<and> gates (generate (CircuitGenerator ?t)) ! gate_id ch = ch"
    unfolding Let_def by blast
  with i ch have "gate_id (G_INPUT 1 ''A'') < 2
      \<and> gates (generate (CircuitGenerator ?t)) ! gate_id (G_INPUT 1 ''A'') = G_INPUT 1 ''A''"
    by blast
  moreover have "gates (generate (CircuitGenerator ?t)) ! 2 =
      G_AND 2 (G_INPUT 0 ''B'') (G_INPUT 1 ''A'')"
    by (simp add: g)
  ultimately show ?thesis by blast
qed

text \<open>
  C8. In the circuit built from any parse tree, the variables of the input gates, read
  along \<^verbatim>\<open>gates\<close>, are the identifier occurrences of the tree, one gate per occurrence
  with repetitions kept, and no two gates share an id; \<^verbatim>\<open>inputs\<close> is sorted, has no
  duplicates, holds exactly the variables of the input gates, and has as many entries as the
  tree has distinct identifiers.
\<close>

theorem C8_inputs_sorted_distinct:
  "let c = generate (CircuitGenerator ast) in
     input_names (gates c) = idents ast
   \<and> distinct (map gate_id (gates c))
   \<and> sorted (inputs c) \<and> distinct (inputs c)
   \<and> set (inputs c) = set (input_names (gates c))
   \<and> length (inputs c) = card (set (idents ast))"
proof -
  define c where "c = generate (CircuitGenerator ast)"
  note s = generate_spec[OF c_def]
  from s(1,3) have n: "input_names (gates c) = idents ast"
    by (simp add: input_names_postorder)
  have d: "distinct (map gate_id (gates c))" unfolding s(2) by simp
  have "sorted (inputs c)" "distinct (inputs c)" "set (inputs c) = set (idents ast)"
    "length (inputs c) = card (set (idents ast))"
    unfolding s(4) by simp_all
  with n d show ?thesis unfolding Let_def c_def[symmetric] by simp
qed

text \<open>The theorem on the tree of \<^verbatim>\<open>B AND A OR NOT B\<close>: three input gates, two inputs.\<close>

theorem C8_inputs_sorted_distinct_witness:
  "input_names (gates (generate (CircuitGenerator
      (N_OR (N_AND (N_IDENTIFIER ''B'') (N_IDENTIFIER ''A'')) (N_NOT (N_IDENTIFIER ''B'')))))) =
     [''B'', ''A'', ''B'']
   \<and> length (inputs (generate (CircuitGenerator
      (N_OR (N_AND (N_IDENTIFIER ''B'') (N_IDENTIFIER ''A'')) (N_NOT (N_IDENTIFIER ''B'')))))) = 2"
proof -
  have "card (set [''B'', ''A'', ''B'']) = 2" by code_simp
  with C8_inputs_sorted_distinct
         [of "N_OR (N_AND (N_IDENTIFIER ''B'') (N_IDENTIFIER ''A'')) (N_NOT (N_IDENTIFIER ''B''))"]
  show ?thesis unfolding Let_def by simp
qed

section \<open>Evaluation\<close>

lemma evaluate_calls_eq: "evaluate_calls x vals = (evaluate x vals, map gate_id (subgates x))"
  by (induction x) (auto simp: Let_def)

text \<open>
  C6. An input gate evaluates to the value the assignment gives its variable, and to false
  when the assignment has no entry for it; a NOT gate to the negation, an AND gate to the
  conjunction and an OR gate to the disjunction of the values of its operands. The recorded
  run enters \<^verbatim>\<open>evaluate\<close> on both operands of an AND or OR gate, left then right, and so
  on every gate of the tree, whatever the values are: nothing is skipped.
\<close>

theorem C6_evaluate:
  "(vals v = Some b \<longrightarrow> evaluate (G_INPUT i v) vals = b)
   \<and> (vals v = None \<longrightarrow> evaluate (G_INPUT i v) vals = False)
   \<and> evaluate (G_NOT i g) vals = (\<not> evaluate g vals)
   \<and> evaluate (G_AND i l r) vals = (evaluate l vals \<and> evaluate r vals)
   \<and> evaluate (G_OR i l r) vals = (evaluate l vals \<or> evaluate r vals)
   \<and> snd (evaluate_calls (G_AND i l r) vals) =
       i # snd (evaluate_calls l vals) @ snd (evaluate_calls r vals)
   \<and> snd (evaluate_calls (G_OR i l r) vals) =
       i # snd (evaluate_calls l vals) @ snd (evaluate_calls r vals)
   \<and> evaluate_calls x vals = (evaluate x vals, map gate_id (subgates x))"
  by (simp add: evaluate_calls_eq Let_def)

text \<open>
  The theorem on an input gate whose variable is assigned, on one whose variable is absent,
  and on an AND gate whose left operand is false: the right operand is evaluated all the same.
\<close>

theorem C6_evaluate_witness:
  "evaluate (G_INPUT 0 ''A'') [''A'' \<mapsto> True] = True
   \<and> evaluate (G_INPUT 0 ''A'') [''B'' \<mapsto> True] = False
   \<and> evaluate_calls (G_AND 2 (G_INPUT 0 ''A'') (G_INPUT 1 ''B'')) [''B'' \<mapsto> True] = (False, [2, 0, 1])"
  using C6_evaluate [of "[''A'' \<mapsto> True]" "''A''" True 0 "G_INPUT 0 ''A''" "G_INPUT 0 ''A''" "G_INPUT 0 ''A''"
                        "G_INPUT 0 ''A''"]
        C6_evaluate [of "[''B'' \<mapsto> True]" "''A''" True 0 "G_INPUT 0 ''A''" "G_INPUT 0 ''A''" "G_INPUT 0 ''A''"
                        "G_AND 2 (G_INPUT 0 ''A'') (G_INPUT 1 ''B'')"]
  by simp

section \<open>Precedence\<close>

lemma next_token_lex_at: "next_token (st :: parser) = lex_at (expression st) (pos st)"
  by (cases st) (auto simp: lex_at_def next_token_def Let_def split: option.splits)

lemma lex_at_expression: "lex_at e p = Inr st \<Longrightarrow> expression st = e"
  unfolding lex_at_def by (drule next_token_expression) simp

lemma skip_spaces_stop: "\<not> (p < length e \<and> e ! p = CHR '' '') \<Longrightarrow> skip_spaces e p = p"
  by (subst skip_spaces.simps) auto

lemma skip_spaces_step:
  "p < length e \<Longrightarrow> e ! p = CHR '' '' \<Longrightarrow> skip_spaces e p = skip_spaces e (Suc p)"
  by (subst skip_spaces.simps) simp

lemma lex_at_space: "p < length e \<Longrightarrow> e ! p = CHR '' '' \<Longrightarrow> lex_at e p = lex_at e (Suc p)"
  by (auto simp: lex_at_def next_token_def Let_def skip_spaces_step split: option.splits)

lemma lex_at_end: "lex_at e (length e) = Inr \<lparr>expression = e, pos = length e, current_token = None\<rparr>"
  by (simp add: lex_at_def next_token_def skip_spaces_stop)

lemma has_at_Nil [simp]: "has_at e p []"
  by (simp add: has_at_def)

lemma has_at_Cons:
  "has_at e p (c # w) \<longleftrightarrow> p < length e \<and> e ! p = c \<and> has_at e (Suc p) w"
proof (cases "p < length e")
  case True
  then have "drop p e = e ! p # drop (Suc p) e" by (simp add: Cons_nth_drop_Suc)
  then show ?thesis using True by (simp add: has_at_def)
next
  case False
  then show ?thesis by (simp add: has_at_def)
qed

lemma has_at_append:
  "has_at e p (a @ b) \<longleftrightarrow> has_at e p a \<and> has_at e (p + length a) b"
  by (induction a arbitrary: p) (auto simp: has_at_Cons)

lemma has_at_drop: "has_at e p w \<Longrightarrow> drop p e = w @ drop (p + length w) e"
  unfolding has_at_def by (metis append_take_drop_id drop_drop add.commute)

lemma has_at_self: "has_at (pre @ w @ post) (length pre) w"
  by (simp add: has_at_def)

lemma lex_at_Cons:
  assumes "drop p e = c # rest" and "c \<noteq> CHR '' ''"
  shows "lex_at e p =
     (case match_paren (c # rest) of
        Some g \<Rightarrow> Inr \<lparr>expression = e, pos = p + length g,
                        current_token = Some (if g = ''('' then T_LPAREN else T_RPAREN)\<rparr>
      | None \<Rightarrow>
          (case match_keyword (c # rest) of
             Some g \<Rightarrow> Inr \<lparr>expression = e, pos = p + length g,
                             current_token = Some (keyword_token g)\<rparr>
           | None \<Rightarrow>
               (case match_identifier (c # rest) of
                  Some g \<Rightarrow> Inr \<lparr>expression = e, pos = p + length g,
                                  current_token = Some (T_IDENTIFIER g)\<rparr>
                | None \<Rightarrow> Inl (Exception ''Invalid character''))))"
proof -
  from assms(1) have p: "p < length e"
    by (metis drop_all list.distinct(1) not_le)
  with assms(1) have c: "e ! p = c" by (metis Cons_nth_drop_Suc list.inject)
  from p c assms(2) have "skip_spaces e p = p" by (intro skip_spaces_stop) simp
  with p assms(1) show ?thesis
    by (simp add: lex_at_def next_token_def Let_def split: option.splits)
qed

lemma lex_at_lparen:
  assumes "has_at e p ''(''"
  shows "lex_at e p = Inr \<lparr>expression = e, pos = p + 1, current_token = Some T_LPAREN\<rparr>"
proof -
  from has_at_drop[OF assms] have "drop p e = CHR ''('' # drop (p + 1) e" by simp
  from lex_at_Cons[OF this] show ?thesis by (simp add: match_paren_def)
qed

lemma lex_at_rparen:
  assumes "has_at e p '')''"
  shows "lex_at e p = Inr \<lparr>expression = e, pos = p + 1, current_token = Some T_RPAREN\<rparr>"
proof -
  from has_at_drop[OF assms] have "drop p e = CHR '')'' # drop (p + 1) e" by simp
  from lex_at_Cons[OF this] show ?thesis by (simp add: match_paren_def)
qed

lemma lex_at_AND:
  assumes "has_at e p ''AND''"
  shows "lex_at e p = Inr \<lparr>expression = e, pos = p + 3, current_token = Some T_AND\<rparr>"
proof -
  from has_at_drop[OF assms] have "drop p e = CHR ''A'' # ''ND'' @ drop (p + 3) e"
    by (simp add: eval_nat_numeral)
  from lex_at_Cons[OF this] show ?thesis
    by (simp add: match_paren_def match_keyword_def keyword_token_def eval_nat_numeral)
qed

lemma lex_at_OR:
  assumes "has_at e p ''OR''"
  shows "lex_at e p = Inr \<lparr>expression = e, pos = p + 2, current_token = Some T_OR\<rparr>"
proof -
  from has_at_drop[OF assms] have "drop p e = CHR ''O'' # ''R'' @ drop (p + 2) e"
    by (simp add: eval_nat_numeral)
  from lex_at_Cons[OF this] show ?thesis
    by (simp add: match_paren_def match_keyword_def keyword_token_def eval_nat_numeral)
qed

lemma lex_at_NOT:
  assumes "has_at e p ''NOT''"
  shows "lex_at e p = Inr \<lparr>expression = e, pos = p + 3, current_token = Some T_NOT\<rparr>"
proof -
  from has_at_drop[OF assms] have "drop p e = CHR ''N'' # ''OT'' @ drop (p + 3) e"
    by (simp add: eval_nat_numeral)
  from lex_at_Cons[OF this] show ?thesis
    by (simp add: match_paren_def match_keyword_def keyword_token_def eval_nat_numeral)
qed

lemma is_ident_start_not_special:
  "is_ident_start c \<Longrightarrow> c \<noteq> CHR '' '' \<and> c \<noteq> CHR ''('' \<and> c \<noteq> CHR '')''"
  by (auto simp: is_ident_start_def)

lemma keyword_chars_ident:
  "is_ident_char CHR ''N''" "is_ident_char CHR ''D''" "is_ident_char CHR ''R''"
  "is_ident_char CHR ''O''" "is_ident_char CHR ''T''"
  by (simp_all add: is_ident_char_def)

lemma match_keyword_append:
  assumes "match_keyword v = None" and "v \<noteq> []"
    and "rest = [] \<or> \<not> is_ident_char (hd rest)"
  shows "match_keyword (v @ rest) = None"
proof (cases rest)
  case Nil
  with assms(1) show ?thesis by simp
next
  case (Cons x r)
  with assms(3) have x: "\<not> is_ident_char x" by simp
  then have xs: "x \<noteq> CHR ''N''" "x \<noteq> CHR ''D''" "x \<noteq> CHR ''R''" "x \<noteq> CHR ''O''" "x \<noteq> CHR ''T''"
    using keyword_chars_ident by auto
  from assms(2) obtain a w where v: "v = a # w" by (cases v) auto
  show ?thesis
  proof (cases w)
    case Nil
    with v Cons xs assms(1) show ?thesis
      by (auto simp: match_keyword_def split: if_splits)
  next
    case w: (Cons b w')
    show ?thesis
    proof (cases w')
      case Nil
      with v w Cons xs assms(1) show ?thesis
        by (auto simp: match_keyword_def split: if_splits)
    next
      case (Cons c w'')
      with v w assms(1) show ?thesis
        by (auto simp: match_keyword_def split: if_splits)
    qed
  qed
qed

lemma takeWhile_ident_append:
  assumes "list_all is_ident_char cs" and "rest = [] \<or> \<not> is_ident_char (hd rest)"
  shows "takeWhile is_ident_char (cs @ rest) = cs"
proof -
  from assms(2) have "takeWhile is_ident_char rest = []" by (cases rest) auto
  with assms(1) show ?thesis by (simp add: takeWhile_append2 list_all_iff)
qed

lemma lex_at_ident:
  assumes h: "has_at e p v" and pl: "plain_identifier v" and en: "ends_at e (p + length v)"
  shows "lex_at e p =
     Inr \<lparr>expression = e, pos = p + length v, current_token = Some (T_IDENTIFIER v)\<rparr>"
proof -
  let ?rest = "drop (p + length v) e"
  from pl obtain c cs where v: "v = c # cs" and c: "is_ident_start c"
    and cs: "list_all is_ident_char cs" and mk: "match_keyword v = None"
    by (auto simp: plain_identifier_def identifier_shaped_def split: list.splits)
  have r: "?rest = [] \<or> \<not> is_ident_char (hd ?rest)"
  proof (cases "length e \<le> p + length v")
    case True
    then show ?thesis by simp
  next
    case False
    with en have "\<not> is_ident_char (e ! (p + length v))" by (simp add: ends_at_def)
    with False show ?thesis by (simp add: hd_drop_conv_nth)
  qed
  from has_at_drop[OF h] have d: "drop p e = c # cs @ ?rest" by (simp add: v)
  from is_ident_start_not_special[OF c] have n: "c \<noteq> CHR '' ''" "c \<noteq> CHR ''(''" "c \<noteq> CHR '')''"
    by simp_all
  have 1: "match_paren (c # cs @ ?rest) = None" using n by (simp add: match_paren_def)
  have 2: "match_keyword (c # cs @ ?rest) = None"
    using match_keyword_append[OF mk _ r] by (simp add: v)
  have 3: "match_identifier (c # cs @ ?rest) = Some v"
    using c takeWhile_ident_append[OF cs r] by (simp add: match_identifier_def v)
  from lex_at_Cons[OF d n(1)] show ?thesis by (simp add: 1 2 3)
qed

lemma factor_ident_rule:
  assumes "current_token st = Some (T_IDENTIFIER v)" and "next_token st = Inr st'"
  shows "factor_returns st (Inr (N_IDENTIFIER v, st'))"
  unfolding factor_returns_def using assms by (intro exI[of _ "Suc 0"]) simp

lemma factor_not_rule:
  assumes "current_token st = Some T_NOT" and "next_token st = Inr st1"
    and "factor_returns st1 (Inr (r, st'))"
  shows "factor_returns st (Inr (N_NOT r, st'))"
proof -
  from assms(3) obtain n where "factor n st1 = Some (Inr (r, st'))"
    by (auto simp: factor_returns_def)
  with assms(1,2) have "factor (Suc n) st = Some (Inr (N_NOT r, st'))" by simp
  then show ?thesis unfolding factor_returns_def by blast
qed

lemma factor_paren_rule:
  assumes "current_token st = Some T_LPAREN" and "next_token st = Inr st1"
    and "expr_returns st1 (Inr (nd, st2))" and "current_token st2 = Some T_RPAREN"
    and "next_token st2 = Inr st'"
  shows "factor_returns st (Inr (nd, st'))"
proof -
  from assms(3) obtain n where "expr n st1 = Some (Inr (nd, st2))"
    by (auto simp: expr_returns_def)
  with assms(1,2,4,5) have "factor (Suc n) st = Some (Inr (nd, st'))" by simp
  then show ?thesis unfolding factor_returns_def by blast
qed

lemma term_rule:
  assumes "factor_returns st (Inr (l, st1))" and "term_while_returns l st1 res"
  shows "term_returns st res"
proof -
  from assms obtain n1 n2 where 1: "factor n1 st = Some (Inr (l, st1))"
    and 2: "term_while n2 l st1 = Some res"
    by (auto simp: factor_returns_def term_while_returns_def)
  from parser_fuel_mono(5)[OF 1, of "max n1 n2"] parser_fuel_mono(4)[OF 2, of "max n1 n2"]
  have "term_fn (Suc (max n1 n2)) st = Some res" by simp
  then show ?thesis unfolding term_returns_def by blast
qed

lemma term_while_stop:
  "current_token st \<noteq> Some T_AND \<Longrightarrow> term_while_returns l st (Inr (l, st))"
  unfolding term_while_returns_def by (intro exI[of _ "Suc 0"]) simp

lemma term_while_step:
  assumes "current_token st = Some T_AND" and "next_token st = Inr st1"
    and "factor_returns st1 (Inr (r, st2))" and "term_while_returns (N_AND l r) st2 res"
  shows "term_while_returns l st res"
proof -
  from assms(3,4) obtain n1 n2 where 1: "factor n1 st1 = Some (Inr (r, st2))"
    and 2: "term_while n2 (N_AND l r) st2 = Some res"
    by (auto simp: factor_returns_def term_while_returns_def)
  from parser_fuel_mono(5)[OF 1, of "max n1 n2"] parser_fuel_mono(4)[OF 2, of "max n1 n2"] assms(1,2)
  have "term_while (Suc (max n1 n2)) l st = Some res" by simp
  then show ?thesis unfolding term_while_returns_def by blast
qed

lemma expr_rule:
  assumes "term_returns st (Inr (l, st1))" and "expr_while_returns l st1 res"
  shows "expr_returns st res"
proof -
  from assms obtain n1 n2 where 1: "term_fn n1 st = Some (Inr (l, st1))"
    and 2: "expr_while n2 l st1 = Some res"
    by (auto simp: term_returns_def expr_while_returns_def)
  from parser_fuel_mono(3)[OF 1, of "max n1 n2"] parser_fuel_mono(2)[OF 2, of "max n1 n2"]
  have "expr (Suc (max n1 n2)) st = Some res" by simp
  then show ?thesis unfolding expr_returns_def by blast
qed

lemma expr_while_stop:
  "current_token st \<noteq> Some T_OR \<Longrightarrow> expr_while_returns l st (Inr (l, st))"
  unfolding expr_while_returns_def by (intro exI[of _ "Suc 0"]) simp

lemma expr_while_step:
  assumes "current_token st = Some T_OR" and "next_token st = Inr st1"
    and "term_returns st1 (Inr (r, st2))" and "expr_while_returns (N_OR l r) st2 res"
  shows "expr_while_returns l st res"
proof -
  from assms(3,4) obtain n1 n2 where 1: "term_fn n1 st1 = Some (Inr (r, st2))"
    and 2: "expr_while n2 (N_OR l r) st2 = Some res"
    by (auto simp: term_returns_def expr_while_returns_def)
  from parser_fuel_mono(3)[OF 1, of "max n1 n2"] parser_fuel_mono(2)[OF 2, of "max n1 n2"] assms(1,2)
  have "expr_while (Suc (max n1 n2)) l st = Some res" by simp
  then show ?thesis unfolding expr_while_returns_def by blast
qed

lemma separators_not_ident: "\<not> is_ident_char CHR '' ''" "\<not> is_ident_char CHR '')''"
  by (simp_all add: is_ident_char_def)

lemma ends_at_char: "q < length e \<Longrightarrow> \<not> is_ident_char (e ! q) \<Longrightarrow> ends_at e q"
  by (simp add: ends_at_def)

lemma factor_reads_term:
  assumes "factor_reads e p q a"
  shows "term_reads e p q a"
  unfolding term_reads_def
proof (intro allI impI)
  fix st' assume "lex_at e q = Inr st'"
  with assms obtain st where st: "lex_at e p = Inr st" "factor_returns st (Inr (a, st'))"
    unfolding factor_reads_def by blast
  from st(2) have "\<forall>res. term_while_returns a st' res \<longrightarrow> term_returns st res"
    by (blast intro: term_rule)
  with st(1) show "\<exists>st. lex_at e p = Inr st \<and>
      (\<forall>res. term_while_returns a st' res \<longrightarrow> term_returns st res)" by blast
qed

lemma term_reads_expr:
  assumes "term_reads e p q a"
  shows "expr_reads e p q a"
  unfolding expr_reads_def
proof (intro allI impI)
  fix st' assume l: "lex_at e q = Inr st'" and t: "current_token st' \<noteq> Some T_AND"
  from assms l obtain st where st: "lex_at e p = Inr st"
    "\<forall>res. term_while_returns a st' res \<longrightarrow> term_returns st res"
    unfolding term_reads_def by blast
  from st(2) term_while_stop[OF t] have "term_returns st (Inr (a, st'))" by blast
  then have "\<forall>res. expr_while_returns a st' res \<longrightarrow> expr_returns st res"
    by (blast intro: expr_rule)
  with st(1) show "\<exists>st. lex_at e p = Inr st \<and>
      (\<forall>res. expr_while_returns a st' res \<longrightarrow> expr_returns st res)" by blast
qed

lemma paren_reads:
  assumes lp: "has_at e p ''(''" and inner: "expr_reads e (p + 1) q a" and rp: "has_at e q '')''"
  shows "factor_reads e p (q + 1) a"
  unfolding factor_reads_def
proof (intro allI impI)
  fix st' assume l: "lex_at e (q + 1) = Inr st'"
  let ?sL = "\<lparr>expression = e, pos = p + 1, current_token = Some T_LPAREN\<rparr>"
  let ?sR = "\<lparr>expression = e, pos = q + 1, current_token = Some T_RPAREN\<rparr>"
  have sL: "lex_at e p = Inr ?sL" by (rule lex_at_lparen[OF lp])
  have sR: "lex_at e q = Inr ?sR" by (rule lex_at_rparen[OF rp])
  from inner sR obtain st1 where st1: "lex_at e (p + 1) = Inr st1"
    "\<forall>res. expr_while_returns a ?sR res \<longrightarrow> expr_returns st1 res"
    unfolding expr_reads_def by force
  have "expr_while_returns a ?sR (Inr (a, ?sR))" by (rule expr_while_stop) simp
  with st1(2) have e: "expr_returns st1 (Inr (a, ?sR))" by blast
  have "factor_returns ?sL (Inr (a, st'))"
  proof (rule factor_paren_rule[OF _ _ e])
    show "current_token ?sL = Some T_LPAREN" by simp
    show "next_token ?sL = Inr st1" using st1(1) by (simp add: next_token_lex_at)
    show "current_token ?sR = Some T_RPAREN" by simp
    show "next_token ?sR = Inr st'" using l by (simp add: next_token_lex_at)
  qed
  with sL show "\<exists>st. lex_at e p = Inr st \<and> factor_returns st (Inr (a, st'))" by blast
qed

lemma not_reads:
  assumes kw: "has_at e p ''NOT ''" and inner: "factor_reads e (p + 4) q a"
  shows "factor_reads e p q (N_NOT a)"
  unfolding factor_reads_def
proof (intro allI impI)
  fix st' assume l: "lex_at e q = Inr st'"
  let ?sN = "\<lparr>expression = e, pos = p + 3, current_token = Some T_NOT\<rparr>"
  from kw have k: "has_at e p ''NOT''" and sp: "p + 3 < length e" "e ! (p + 3) = CHR '' ''"
    by (simp_all add: has_at_Cons eval_nat_numeral)
  have sN: "lex_at e p = Inr ?sN" by (rule lex_at_NOT[OF k])
  from inner l obtain st1 where st1: "lex_at e (p + 4) = Inr st1"
    "factor_returns st1 (Inr (a, st'))"
    unfolding factor_reads_def by blast
  from lex_at_space[OF sp] st1(1) have n: "lex_at e (p + 3) = Inr st1"
    by (simp add: eval_nat_numeral)
  have "factor_returns ?sN (Inr (N_NOT a, st'))"
  proof (rule factor_not_rule[OF _ _ st1(2)])
    show "current_token ?sN = Some T_NOT" by simp
    show "next_token ?sN = Inr st1" using n by (simp add: next_token_lex_at)
  qed
  with sN show "\<exists>st. lex_at e p = Inr st \<and> factor_returns st (Inr (N_NOT a, st'))" by blast
qed

lemma and_reads:
  assumes left: "term_reads e p q l" and kw: "has_at e q '' AND ''"
    and right: "factor_reads e (q + 5) q' r"
  shows "term_reads e p q' (N_AND l r)"
  unfolding term_reads_def
proof (intro allI impI)
  fix st' assume l: "lex_at e q' = Inr st'"
  let ?sA = "\<lparr>expression = e, pos = q + 4, current_token = Some T_AND\<rparr>"
  from kw have s1: "q < length e" "e ! q = CHR '' ''" and k: "has_at e (q + 1) ''AND''"
    and s2: "q + 4 < length e" "e ! (q + 4) = CHR '' ''"
    by (simp_all add: has_at_Cons eval_nat_numeral)
  from lex_at_AND[OF k] have "lex_at e (q + 1) = Inr ?sA" by (simp add: eval_nat_numeral)
  with lex_at_space[OF s1] have sA: "lex_at e q = Inr ?sA" by simp
  from right l obtain st_r where st_r: "lex_at e (q + 5) = Inr st_r"
    "factor_returns st_r (Inr (r, st'))"
    unfolding factor_reads_def by blast
  from lex_at_space[OF s2] st_r(1) have n: "lex_at e (q + 4) = Inr st_r"
    by (simp add: eval_nat_numeral)
  from left sA obtain st where st: "lex_at e p = Inr st"
    "\<forall>res. term_while_returns l ?sA res \<longrightarrow> term_returns st res"
    unfolding term_reads_def by blast
  have "term_returns st res" if w: "term_while_returns (N_AND l r) st' res" for res
  proof -
    have "term_while_returns l ?sA res"
    proof (rule term_while_step[OF _ _ st_r(2) w])
      show "current_token ?sA = Some T_AND" by simp
      show "next_token ?sA = Inr st_r" using n by (simp add: next_token_lex_at)
    qed
    with st(2) show ?thesis by blast
  qed
  with st(1) show "\<exists>st. lex_at e p = Inr st \<and>
      (\<forall>res. term_while_returns (N_AND l r) st' res \<longrightarrow> term_returns st res)" by blast
qed

lemma or_reads:
  assumes left: "expr_reads e p q l" and kw: "has_at e q '' OR ''"
    and right: "term_reads e (q + 4) q' r"
  shows "expr_reads e p q' (N_OR l r)"
  unfolding expr_reads_def
proof (intro allI impI)
  fix st' assume l: "lex_at e q' = Inr st'" and t: "current_token st' \<noteq> Some T_AND"
  let ?sO = "\<lparr>expression = e, pos = q + 3, current_token = Some T_OR\<rparr>"
  from kw have s1: "q < length e" "e ! q = CHR '' ''" and k: "has_at e (q + 1) ''OR''"
    and s2: "q + 3 < length e" "e ! (q + 3) = CHR '' ''"
    by (simp_all add: has_at_Cons eval_nat_numeral)
  from lex_at_OR[OF k] have "lex_at e (q + 1) = Inr ?sO" by (simp add: eval_nat_numeral)
  with lex_at_space[OF s1] have sO: "lex_at e q = Inr ?sO" by simp
  from right l obtain st_r where st_r: "lex_at e (q + 4) = Inr st_r"
    "\<forall>res. term_while_returns r st' res \<longrightarrow> term_returns st_r res"
    unfolding term_reads_def by blast
  from st_r(2) term_while_stop[OF t] have tr: "term_returns st_r (Inr (r, st'))" by blast
  from lex_at_space[OF s2] st_r(1) have n: "lex_at e (q + 3) = Inr st_r"
    by (simp add: eval_nat_numeral)
  have "current_token ?sO \<noteq> Some T_AND" by simp
  with left sO obtain st where st: "lex_at e p = Inr st"
    "\<forall>res. expr_while_returns l ?sO res \<longrightarrow> expr_returns st res"
    unfolding expr_reads_def by blast
  have "expr_returns st res" if w: "expr_while_returns (N_OR l r) st' res" for res
  proof -
    have "expr_while_returns l ?sO res"
    proof (rule expr_while_step[OF _ _ tr w])
      show "current_token ?sO = Some T_OR" by simp
      show "next_token ?sO = Inr st_r" using n by (simp add: next_token_lex_at)
    qed
    with st(2) show ?thesis by blast
  qed
  with st(1) show "\<exists>st. lex_at e p = Inr st \<and>
      (\<forall>res. expr_while_returns (N_OR l r) st' res \<longrightarrow> expr_returns st res)" by blast
qed

lemma ident_reads:
  assumes "has_at e p v" and "plain_identifier v" and "ends_at e (p + length v)"
  shows "factor_reads e p (p + length v) (N_IDENTIFIER v)"
  unfolding factor_reads_def
proof (intro allI impI)
  fix st' assume l: "lex_at e (p + length v) = Inr st'"
  let ?s = "\<lparr>expression = e, pos = p + length v, current_token = Some (T_IDENTIFIER v)\<rparr>"
  have s: "lex_at e p = Inr ?s" by (rule lex_at_ident[OF assms])
  have "factor_returns ?s (Inr (N_IDENTIFIER v, st'))"
  proof (rule factor_ident_rule)
    show "current_token ?s = Some (T_IDENTIFIER v)" by simp
    show "next_token ?s = Inr st'" using l by (simp add: next_token_lex_at)
  qed
  with s show "\<exists>st. lex_at e p = Inr st \<and> factor_returns st (Inr (N_IDENTIFIER v, st'))"
    by blast
qed

lemma reads_at_factor: "factor_reads e p q nd \<Longrightarrow> reads_at lv e p q nd"
  by (auto simp: reads_at_def intro: factor_reads_term term_reads_expr)

lemma reads_at_term: "term_reads e p q nd \<Longrightarrow> lv \<le> 1 \<Longrightarrow> reads_at lv e p q nd"
  by (auto simp: reads_at_def intro: term_reads_expr)

lemma has_at_parenthesised:
  assumes "has_at e p (''('' @ u @ '')'')"
  shows "has_at e p ''(''" and "has_at e (p + 1) u" and "has_at e (p + 1 + length u) '')''"
  using assms unfolding has_at_append by simp_all

lemma has_at_infix:
  assumes "has_at e p (a @ k @ b)"
  shows "has_at e p a" and "has_at e (p + length a) k"
    and "has_at e (p + length a + length k) b"
  using assms unfolding has_at_append by simp_all

lemma parenthesised_reads:
  assumes h: "has_at e p (''('' @ u @ '')'')" and inner: "expr_reads e (p + 1) (p + 1 + length u) a"
  shows "factor_reads e p (p + length (''('' @ u @ '')'')) a"
proof -
  note lp = has_at_parenthesised(1)[OF h] and rp = has_at_parenthesised(3)[OF h]
  from paren_reads[OF lp inner rp] show ?thesis by (simp add: add.assoc)
qed

lemma unparse_reads:
  assumes "list_all plain_identifier (idents ast)"
    and "has_at e p (unparse lv ast)"
    and "ends_at e (p + length (unparse lv ast))"
  shows "reads_at lv e p (p + length (unparse lv ast)) ast"
  using assms
proof (induction ast arbitrary: e p lv)
  case (N_IDENTIFIER v)
  then have "factor_reads e p (p + length v) (N_IDENTIFIER v)"
    by (intro ident_reads) simp_all
  then show ?case by (simp add: reads_at_factor)
next
  case (N_NOT r)
  let ?u = "unparse 2 r"
  from N_NOT.prems(2) have kw: "has_at e p ''NOT ''" and hu: "has_at e (p + 4) ?u"
    by (simp_all add: has_at_Cons eval_nat_numeral)
  have len: "p + length (unparse lv (N_NOT r)) = p + 4 + length ?u" by simp
  from N_NOT.prems(3) have en: "ends_at e (p + 4 + length ?u)" unfolding len .
  from N_NOT.IH[OF _ hu en] N_NOT.prems(1) have "factor_reads e (p + 4) (p + 4 + length ?u) r"
    by (simp add: reads_at_def)
  from not_reads[OF kw this] have "factor_reads e p (p + length (unparse lv (N_NOT r))) (N_NOT r)"
    unfolding len .
  then show ?case by (rule reads_at_factor)
next
  case (N_AND l r)
  let ?ul = "unparse 1 l" and ?ur = "unparse 2 r"
  let ?inner = "?ul @ '' AND '' @ ?ur"
  from N_AND.prems(1) have pl: "list_all plain_identifier (idents l)"
    and pr: "list_all plain_identifier (idents r)" by simp_all
  have inner: "term_reads e' p' (p' + length ?inner) (N_AND l r)"
    if h: "has_at e' p' ?inner" and en: "ends_at e' (p' + length ?inner)" for e' p'
  proof -
    note hl = has_at_infix(1)[OF h] and kw = has_at_infix(2)[OF h]
    from has_at_infix(3)[OF h] have hr: "has_at e' (p' + length ?ul + 5) ?ur"
      by (simp add: eval_nat_numeral)
    from kw have "ends_at e' (p' + length ?ul)"
      by (intro ends_at_char) (simp_all add: has_at_Cons separators_not_ident)
    from N_AND.IH(1)[OF pl hl this] have tl: "term_reads e' p' (p' + length ?ul) l"
      by (simp add: reads_at_def)
    have len: "p' + length ?inner = p' + length ?ul + 5 + length ?ur" by simp
    from en have "ends_at e' (p' + length ?ul + 5 + length ?ur)" unfolding len .
    from N_AND.IH(2)[OF pr hr this]
    have "factor_reads e' (p' + length ?ul + 5) (p' + length ?ul + 5 + length ?ur) r"
      by (simp add: reads_at_def)
    from and_reads[OF tl kw this] show ?thesis unfolding len .
  qed
  show ?case
  proof (cases "1 < lv")
    case False
    with N_AND.prems(2,3) inner[of e p] have "term_reads e p (p + length ?inner) (N_AND l r)"
      by (simp add: paren_def)
    with False show ?thesis by (simp add: reads_at_term paren_def)
  next
    case True
    with N_AND.prems(2) have h: "has_at e p (''('' @ ?inner @ '')'')" by (simp add: paren_def)
    note hi = has_at_parenthesised(2)[OF h] and rp = has_at_parenthesised(3)[OF h]
    from rp have "ends_at e (p + 1 + length ?inner)"
      by (intro ends_at_char) (simp_all add: has_at_Cons separators_not_ident)
    from inner[OF hi this] have "expr_reads e (p + 1) (p + 1 + length ?inner) (N_AND l r)"
      by (rule term_reads_expr)
    from parenthesised_reads[OF h this] True show ?thesis
      by (simp add: reads_at_factor paren_def)
  qed
next
  case (N_OR l r)
  let ?ul = "unparse 0 l" and ?ur = "unparse 1 r"
  let ?inner = "?ul @ '' OR '' @ ?ur"
  from N_OR.prems(1) have pl: "list_all plain_identifier (idents l)"
    and pr: "list_all plain_identifier (idents r)" by simp_all
  have inner: "expr_reads e' p' (p' + length ?inner) (N_OR l r)"
    if h: "has_at e' p' ?inner" and en: "ends_at e' (p' + length ?inner)" for e' p'
  proof -
    note hl = has_at_infix(1)[OF h] and kw = has_at_infix(2)[OF h]
    from has_at_infix(3)[OF h] have hr: "has_at e' (p' + length ?ul + 4) ?ur"
      by (simp add: eval_nat_numeral)
    from kw have "ends_at e' (p' + length ?ul)"
      by (intro ends_at_char) (simp_all add: has_at_Cons separators_not_ident)
    from N_OR.IH(1)[OF pl hl this] have el: "expr_reads e' p' (p' + length ?ul) l"
      by (simp add: reads_at_def)
    have len: "p' + length ?inner = p' + length ?ul + 4 + length ?ur" by simp
    from en have "ends_at e' (p' + length ?ul + 4 + length ?ur)" unfolding len .
    from N_OR.IH(2)[OF pr hr this]
    have "term_reads e' (p' + length ?ul + 4) (p' + length ?ul + 4 + length ?ur) r"
      by (simp add: reads_at_def)
    from or_reads[OF el kw this] show ?thesis unfolding len .
  qed
  show ?case
  proof (cases "0 < lv")
    case False
    with N_OR.prems(2,3) inner[of e p] show ?thesis
      by (simp add: reads_at_def paren_def)
  next
    case True
    with N_OR.prems(2) have h: "has_at e p (''('' @ ?inner @ '')'')" by (simp add: paren_def)
    note hi = has_at_parenthesised(2)[OF h] and rp = has_at_parenthesised(3)[OF h]
    from rp have "ends_at e (p + 1 + length ?inner)"
      by (intro ends_at_char) (simp_all add: has_at_Cons separators_not_ident)
    from parenthesised_reads[OF h inner[OF hi this]] True show ?thesis
      by (simp add: reads_at_factor paren_def)
  qed
qed

lemma expr_reads_parse:
  assumes "expr_reads e 0 (length e) ast"
  shows "parse e = Inr (ast, \<lparr>expression = e, pos = length e, current_token = None\<rparr>)"
proof -
  let ?s' = "\<lparr>expression = e, pos = length e, current_token = None\<rparr>"
  have "current_token ?s' \<noteq> Some T_AND" by simp
  with assms lex_at_end[of e] obtain st where st: "lex_at e 0 = Inr st"
    "\<forall>res. expr_while_returns ast ?s' res \<longrightarrow> expr_returns st res"
    unfolding expr_reads_def by blast
  have "expr_while_returns ast ?s' (Inr (ast, ?s'))" by (rule expr_while_stop) simp
  with st(2) obtain n where "expr n st = Some (Inr (ast, ?s'))"
    unfolding expr_returns_def by blast
  with st(1) have "parse_fuel n e = Some (Inr (ast, ?s'))"
    by (simp add: parse_fuel_def LogicParser_def lex_at_def)
  from parse_fuel_result[OF this] show ?thesis by simp
qed

lemma parse_unparse:
  assumes "list_all plain_identifier (idents ast)"
  shows "parse (unparse 0 ast) =
     Inr (ast, \<lparr>expression = unparse 0 ast, pos = length (unparse 0 ast), current_token = None\<rparr>)"
proof -
  let ?e = "unparse 0 ast"
  have "has_at ?e 0 ?e" by (simp add: has_at_def)
  moreover have "ends_at ?e (0 + length ?e)" by (simp add: ends_at_def)
  ultimately have "reads_at 0 ?e 0 (0 + length ?e) ast" by (rule unparse_reads[OF assms])
  then have "expr_reads ?e 0 (length ?e) ast" by (simp add: reads_at_def)
  then show ?thesis by (rule expr_reads_parse)
qed

lemma parse_parenthesised:
  assumes "list_all plain_identifier (idents ast)"
  shows "parse (''('' @ unparse 0 ast @ '')'') =
     Inr (ast, \<lparr>expression = ''('' @ unparse 0 ast @ '')'',
               pos = length (''('' @ unparse 0 ast @ '')''), current_token = None\<rparr>)"
proof -
  let ?u = "unparse 0 ast"
  let ?e = "''('' @ ?u @ '')''"
  have h: "has_at ?e 0 ?e" by (simp add: has_at_def)
  note hu = has_at_parenthesised(2)[OF h] and rp = has_at_parenthesised(3)[OF h]
  from rp have "ends_at ?e (0 + 1 + length ?u)"
    by (intro ends_at_char) (simp_all add: has_at_Cons separators_not_ident)
  from unparse_reads[OF assms hu this] have "expr_reads ?e (0 + 1) (0 + 1 + length ?u) ast"
    by (simp add: reads_at_def)
  from parenthesised_reads[OF h this] have "factor_reads ?e 0 (length ?e) ast" by simp
  then have "expr_reads ?e 0 (length ?e) ast" by (intro term_reads_expr factor_reads_term)
  then show ?thesis by (rule expr_reads_parse)
qed

lemma evaluate_node_of: "evaluate g vals = eval_node (node_of g) vals"
  by (induction g) (auto simp: Let_def split: option.splits)

lemma evaluate_generate:
  "evaluate (output_gate (generate (CircuitGenerator ast))) vals = eval_node ast vals"
  using generate_spec(3)[OF refl, of ast] by (simp add: evaluate_node_of)

lemma parse_C4:
  "parse ''A AND B OR C'' = Inr (N_OR (N_AND (N_IDENTIFIER ''A'') (N_IDENTIFIER ''B'')) (N_IDENTIFIER ''C''),
      \<lparr>expression = ''A AND B OR C'', pos = 12, current_token = None\<rparr>)"
  "parse ''(A AND B) OR C'' = Inr (N_OR (N_AND (N_IDENTIFIER ''A'') (N_IDENTIFIER ''B'')) (N_IDENTIFIER ''C''),
      \<lparr>expression = ''(A AND B) OR C'', pos = 14, current_token = None\<rparr>)"
  "parse ''A AND (B OR C)'' = Inr (N_AND (N_IDENTIFIER ''A'') (N_OR (N_IDENTIFIER ''B'') (N_IDENTIFIER ''C'')),
      \<lparr>expression = ''A AND (B OR C)'', pos = 14, current_token = None\<rparr>)"
  by code_simp+

lemma output_gate_generate: "node_of (output_gate (generate (CircuitGenerator ast))) = ast"
  using generate_spec(3)[OF refl] .

text \<open>
  C4. Precedence in general: every parse tree whose identifiers do not begin with a keyword,
  written as text with only the parentheses that "OR lowest, AND middle, NOT highest,
  binary operators grouping to the left" requires, is parsed back to that very tree, with
  all input consumed; so is that text inside one more pair of parentheses; and the circuit
  built from it evaluates to the truth value of the tree. So an AND beside an OR is an
  operand of the OR, a NOT takes the single factor after it, and where the tree goes
  against this order the parentheses written there decide. In particular, for every
  assignment, \<^verbatim>\<open>A AND B OR C\<close> evaluates to the same Boolean as \<^verbatim>\<open>(A AND B) OR C\<close>,
  namely \<open>(a \<and> b) \<or> c\<close>, and the two expressions have the same parse tree. It is not read as
  \<^verbatim>\<open>A AND (B OR C)\<close>: that expression has another parse tree and evaluates to
  \<open>a \<and> (b \<or> c)\<close>, which differs exactly on the assignments where \<open>C\<close> is true and \<open>A\<close> is
  false.
\<close>

theorem C4_precedence:
  "(list_all plain_identifier (idents ast) \<longrightarrow>
        parse (unparse 0 ast) =
          Inr (ast, \<lparr>expression = unparse 0 ast, pos = length (unparse 0 ast),
                     current_token = None\<rparr>)
      \<and> parse (''('' @ unparse 0 ast @ '')'') =
          Inr (ast, \<lparr>expression = ''('' @ unparse 0 ast @ '')'',
                     pos = length (''('' @ unparse 0 ast @ '')''), current_token = None\<rparr>)
      \<and> evaluate_expression (unparse 0 ast) vals = Inr (eval_node ast vals))
   \<and> (let a = (vals ''A'' = Some True); b = (vals ''B'' = Some True); c = (vals ''C'' = Some True) in
     evaluate_expression ''A AND B OR C'' vals = evaluate_expression ''(A AND B) OR C'' vals
   \<and> evaluate_expression ''A AND B OR C'' vals = Inr ((a \<and> b) \<or> c)
   \<and> evaluate_expression ''A AND (B OR C)'' vals = Inr (a \<and> (b \<or> c))
   \<and> (evaluate_expression ''A AND B OR C'' vals \<noteq> evaluate_expression ''A AND (B OR C)'' vals)
       = (c \<and> \<not> a)
   \<and> map_sum id fst (parse ''A AND B OR C'') = map_sum id fst (parse ''(A AND B) OR C'')
   \<and> map_sum id fst (parse ''A AND B OR C'') \<noteq> map_sum id fst (parse ''A AND (B OR C)''))"
proof -
  have general: "parse (unparse 0 ast) =
          Inr (ast, \<lparr>expression = unparse 0 ast, pos = length (unparse 0 ast),
                     current_token = None\<rparr>)
      \<and> parse (''('' @ unparse 0 ast @ '')'') =
          Inr (ast, \<lparr>expression = ''('' @ unparse 0 ast @ '')'',
                     pos = length (''('' @ unparse 0 ast @ '')''), current_token = None\<rparr>)
      \<and> evaluate_expression (unparse 0 ast) vals = Inr (eval_node ast vals)"
    if pl: "list_all plain_identifier (idents ast)"
  proof -
    note p = parse_unparse[OF pl]
    have "evaluate_expression (unparse 0 ast) vals = Inr (eval_node ast vals)"
      unfolding evaluate_expression_def p by (simp add: evaluate_generate)
    with p parse_parenthesised[OF pl] show ?thesis by blast
  qed
  let ?t1 = "N_OR (N_AND (N_IDENTIFIER ''A'') (N_IDENTIFIER ''B'')) (N_IDENTIFIER ''C'')"
  let ?t3 = "N_AND (N_IDENTIFIER ''A'') (N_OR (N_IDENTIFIER ''B'') (N_IDENTIFIER ''C''))"
  have e1: "evaluate_expression ''A AND B OR C'' vals =
      Inr ((vals ''A'' = Some True \<and> vals ''B'' = Some True) \<or> vals ''C'' = Some True)"
    unfolding evaluate_expression_def parse_C4 by (simp add: evaluate_generate)
  have e2: "evaluate_expression ''(A AND B) OR C'' vals =
      Inr ((vals ''A'' = Some True \<and> vals ''B'' = Some True) \<or> vals ''C'' = Some True)"
    unfolding evaluate_expression_def parse_C4 by (simp add: evaluate_generate)
  have e3: "evaluate_expression ''A AND (B OR C)'' vals =
      Inr (vals ''A'' = Some True \<and> (vals ''B'' = Some True \<or> vals ''C'' = Some True))"
    unfolding evaluate_expression_def parse_C4 by (simp add: evaluate_generate)
  have concrete: "let a = (vals ''A'' = Some True); b = (vals ''B'' = Some True);
        c = (vals ''C'' = Some True) in
     evaluate_expression ''A AND B OR C'' vals = evaluate_expression ''(A AND B) OR C'' vals
   \<and> evaluate_expression ''A AND B OR C'' vals = Inr ((a \<and> b) \<or> c)
   \<and> evaluate_expression ''A AND (B OR C)'' vals = Inr (a \<and> (b \<or> c))
   \<and> (evaluate_expression ''A AND B OR C'' vals \<noteq> evaluate_expression ''A AND (B OR C)'' vals)
       = (c \<and> \<not> a)
   \<and> map_sum id fst (parse ''A AND B OR C'') = map_sum id fst (parse ''(A AND B) OR C'')
   \<and> map_sum id fst (parse ''A AND B OR C'') \<noteq> map_sum id fst (parse ''A AND (B OR C)'')"
    unfolding Let_def e1 e2 e3 parse_C4 by auto
  from general concrete show ?thesis by blast
qed

text \<open>
  The theorem on the tree of \<^verbatim>\<open>A OR NOT B AND C\<close>, where all three operators meet: the
  text parses to OR of \<open>A\<close> and the AND of NOT \<open>B\<close> and \<open>C\<close>; and at the assignment where
  only \<^verbatim>\<open>C\<close> is true the two readings of \<^verbatim>\<open>A AND B OR C\<close> differ.
\<close>

theorem C4_precedence_witness:
  "list_all plain_identifier
     (idents (N_OR (N_IDENTIFIER ''A'') (N_AND (N_NOT (N_IDENTIFIER ''B'')) (N_IDENTIFIER ''C''))))
   \<and> unparse 0 (N_OR (N_IDENTIFIER ''A'') (N_AND (N_NOT (N_IDENTIFIER ''B'')) (N_IDENTIFIER ''C'')))
       = ''A OR NOT B AND C''
   \<and> map_sum id fst (parse ''A OR NOT B AND C'') =
       Inr (N_OR (N_IDENTIFIER ''A'') (N_AND (N_NOT (N_IDENTIFIER ''B'')) (N_IDENTIFIER ''C'')))
   \<and> evaluate_expression ''A OR NOT B AND C'' [''C'' \<mapsto> True] = Inr True
   \<and> evaluate_expression ''A OR NOT B AND C'' [''B'' \<mapsto> True, ''C'' \<mapsto> True] = Inr False
   \<and> evaluate_expression ''A AND B OR C'' [''C'' \<mapsto> True] = Inr True
   \<and> evaluate_expression ''(A AND B) OR C'' [''C'' \<mapsto> True] = Inr True
   \<and> evaluate_expression ''A AND (B OR C)'' [''C'' \<mapsto> True] = Inr False"
proof -
  let ?t = "N_OR (N_IDENTIFIER ''A'') (N_AND (N_NOT (N_IDENTIFIER ''B'')) (N_IDENTIFIER ''C''))"
  have pl: "list_all plain_identifier (idents ?t)" by code_simp
  have u: "unparse 0 ?t = ''A OR NOT B AND C''" by (simp add: paren_def)
  from C4_precedence [of ?t "[''C'' \<mapsto> True]"]
       C4_precedence [of ?t "[''B'' \<mapsto> True, ''C'' \<mapsto> True]"] pl
  show ?thesis unfolding Let_def u by auto
qed

section \<open>Truth table properties\<close>

lemma format_b_rec:
  "i < 2 \<Longrightarrow> format_b i = [if i = 0 then CHR ''0'' else CHR ''1'']"
  "\<not> i < 2 \<Longrightarrow> format_b i = format_b (i div 2) @ [if i mod 2 = 0 then CHR ''0'' else CHR ''1'']"
  by (subst format_b.simps, simp)+

lemma format_b_length_pos: "0 < length (format_b i)"
  by (cases "i < 2") (simp_all add: format_b_rec)

lemma format_b_length_le: "i < 2 ^ k \<Longrightarrow> 0 < k \<Longrightarrow> length (format_b i) \<le> k"
proof (induction i arbitrary: k rule: format_b.induct)
  case (1 i)
  show ?case
  proof (cases "i < 2")
    case True
    with "1.prems" show ?thesis by (simp add: format_b_rec)
  next
    case False
    from "1.prems" obtain k' where k: "k = Suc k'" by (cases k) auto
    from False "1.prems" k have "0 < k'" by (cases k') auto
    moreover from "1.prems" k have "i div 2 < 2 ^ k'" by auto
    ultimately have "length (format_b (i div 2)) \<le> k'" using "1.IH"[OF False] by blast
    with False k show ?thesis by (simp add: format_b_rec)
  qed
qed

lemma format_b_lt: "i < 2 ^ length (format_b i)"
proof (induction i rule: format_b.induct)
  case (1 i)
  show ?case
  proof (cases "i < 2")
    case True
    then show ?thesis by (simp add: format_b_rec)
  next
    case False
    from "1.IH"[OF False] have "i div 2 < 2 ^ length (format_b (i div 2))" .
    then have "i < 2 * 2 ^ length (format_b (i div 2))" by auto
    with False show ?thesis by (simp add: format_b_rec)
  qed
qed

lemma format_b_nth:
  "j < length (format_b i) \<Longrightarrow>
     (format_b i ! j = CHR ''1'') = odd (i div 2 ^ (length (format_b i) - 1 - j))"
proof (induction i arbitrary: j rule: format_b.induct)
  case (1 i)
  show ?case
  proof (cases "i < 2")
    case True
    with "1.prems" have "j = 0" by (simp add: format_b_rec)
    with True show ?thesis by (auto simp: format_b_rec)
  next
    case False
    let ?L = "length (format_b (i div 2))"
    from False have f: "format_b i = format_b (i div 2) @ [if i mod 2 = 0 then CHR ''0'' else CHR ''1'']"
      by (rule format_b_rec)
    show ?thesis
    proof (cases "j < ?L")
      case True
      have a: "format_b i ! j = format_b (i div 2) ! j"
        using True by (simp add: f nth_append)
      have b: "length (format_b i) - 1 - j = Suc (?L - 1 - j)"
        using True by (simp add: f)
      have c: "i div 2 ^ Suc (?L - 1 - j) = i div 2 div 2 ^ (?L - 1 - j)"
        by (simp add: div_mult2_eq)
      show ?thesis unfolding a b c by (rule "1.IH"[OF False True])
    next
      case nl: False
      with "1.prems" f have "j = ?L" by simp
      then show ?thesis by (auto simp: f nth_append odd_iff_mod_2_eq_one)
    qed
  qed
qed

lemma format_0b_length: "i < 2 ^ k \<Longrightarrow> 0 < k \<Longrightarrow> length (format_0b k i) = k"
  using format_b_length_le[of i k] by (simp add: format_0b_def)

lemma format_0b_nth:
  assumes "i < 2 ^ k" and "j < k"
  shows "(format_0b k i ! j = CHR ''1'') = odd (i div 2 ^ (k - 1 - j))"
proof -
  let ?L = "length (format_b i)"
  from assms have L: "?L \<le> k" by (intro format_b_length_le) auto
  show ?thesis
  proof (cases "j < k - ?L")
    case True
    then have "format_0b k i ! j = CHR ''0''" by (simp add: format_0b_def nth_append)
    moreover from True have "?L \<le> k - 1 - j" by simp
    then have "(2::nat) ^ ?L \<le> 2 ^ (k - 1 - j)" by (rule power_increasing) simp
    with format_b_lt[of i] have "i < 2 ^ (k - 1 - j)" by (rule less_le_trans)
    then have "i div 2 ^ (k - 1 - j) = 0" by (rule div_less)
    ultimately show ?thesis by simp
  next
    case False
    with assms L have j: "j - (k - ?L) < ?L" by simp
    from False have "format_0b k i ! j = format_b i ! (j - (k - ?L))"
      by (simp add: format_0b_def nth_append)
    moreover from False assms L have "?L - 1 - (j - (k - ?L)) = k - 1 - j" by simp
    ultimately show ?thesis using format_b_nth[OF j] by simp
  qed
qed

lemma foldl_assign_other:
  "v \<notin> set xs \<Longrightarrow>
     foldl (\<lambda>m (j, var). m(var \<mapsto> P j)) m0 (List.enumerate n xs) v = m0 v"
  by (induction xs arbitrary: n m0) auto

lemma foldl_assign_dom:
  "dom (foldl (\<lambda>m (j, var). m(var \<mapsto> P j)) m0 (List.enumerate n xs)) = dom m0 \<union> set xs"
  by (induction xs arbitrary: n m0) auto

lemma foldl_assign_Cons:
  "foldl (\<lambda>m (j, var). m(var \<mapsto> P j)) m0 (List.enumerate n (x # xs)) =
     foldl (\<lambda>m (j, var). m(var \<mapsto> P j)) (m0(x \<mapsto> P n)) (List.enumerate (Suc n) xs)"
  by simp

lemma foldl_assign_nth:
  "distinct xs \<Longrightarrow> j < length xs \<Longrightarrow>
     foldl (\<lambda>m (j, var). m(var \<mapsto> P j)) m0 (List.enumerate n xs) (xs ! j) = Some (P (n + j))"
proof (induction xs arbitrary: n m0 j)
  case Nil
  then show ?case by simp
next
  case (Cons x xs)
  show ?case
  proof (cases j)
    case 0
    from Cons.prems have "x \<notin> set xs" by simp
    from foldl_assign_other[OF this, of P "m0(x \<mapsto> P n)" "Suc n"]
    have "foldl (\<lambda>m (j, var). m(var \<mapsto> P j)) (m0(x \<mapsto> P n)) (List.enumerate (Suc n) xs) x
        = Some (P n)"
      by (simp only: fun_upd_same)
    then show ?thesis
      by (simp only: 0 foldl_assign_Cons nth_Cons_0 add_0_right)
  next
    case (Suc j')
    from Cons.prems Suc have "distinct xs" "j' < length xs" by simp_all
    from Cons.IH[OF this, of "m0(x \<mapsto> P n)" "Suc n"] show ?thesis
      by (simp only: Suc foldl_assign_Cons nth_Cons_Suc add_Suc add_Suc_right)
  qed
qed

lemma assign_values_dom: "dom (assign_values inps binary) = set inps"
  by (simp add: assign_values_def foldl_assign_dom)

lemma assign_values_nth:
  "distinct inps \<Longrightarrow> j < length inps \<Longrightarrow>
     assign_values inps binary (inps ! j) = Some (binary ! j = CHR ''1'')"
  using foldl_assign_nth[of inps j "\<lambda>j. binary ! j = CHR ''1''" Map.empty 0]
  by (simp add: assign_values_def)

lemma truth_table_row_eq:
  "truth_table_row inps out i =
     Inr ((assign_values inps (format_0b (length inps) i))
            (''Output'' \<mapsto> evaluate out (assign_values inps (format_0b (length inps) i))))"
proof -
  let ?vv = "assign_values inps (format_0b (length inps) i)"
  have d: "dom ?vv = set inps" by (rule assign_values_dom)
  then have "find (\<lambda>var. ?vv var = None) inps = None"
    by (auto simp: find_None_iff)
  moreover have "?vv x = None" if "x \<notin> set inps" for x
    using that d by (metis domIff)
  then have "?vv |` set inps = ?vv"
    by (auto simp: restrict_map_def fun_eq_iff)
  ultimately show ?thesis by (simp add: truth_table_row_def Let_def)
qed

lemma for_range_all_Inr:
  "(\<And>i. body i = Inr (f i)) \<Longrightarrow> for_range body is acc = Inr (acc @ map f is)"
  by (induction "is" arbitrary: acc) auto

lemma generate_truth_table_eq:
  "generate_truth_table c =
     Inr (map (\<lambda>i. (assign_values (inputs c) (format_0b (length (inputs c)) i))
                     (''Output'' \<mapsto> evaluate (output_gate c)
                         (assign_values (inputs c) (format_0b (length (inputs c)) i))))
              [0..<2 ^ length (inputs c)])"
  unfolding generate_truth_table_def Let_def
  using for_range_all_Inr[of "truth_table_row (inputs c) (output_gate c)", OF truth_table_row_eq]
  by simp

lemma truth_table_rows:
  assumes "distinct (inputs c)"
  shows "\<exists>rows. generate_truth_table c = Inr rows \<and> length rows = 2 ^ length (inputs c)
     \<and> (\<forall>i<2 ^ length (inputs c). \<exists>vv.
           dom vv = set (inputs c)
         \<and> (\<forall>j<length (inputs c).
               vv (inputs c ! j) = Some (odd (i div 2 ^ (length (inputs c) - 1 - j))))
         \<and> rows ! i = vv(''Output'' \<mapsto> evaluate (output_gate c) vv))"
proof -
  let ?k = "length (inputs c)"
  let ?vv = "\<lambda>i. assign_values (inputs c) (format_0b ?k i)"
  let ?rows = "map (\<lambda>i. (?vv i)(''Output'' \<mapsto> evaluate (output_gate c) (?vv i))) [0..<2 ^ ?k]"
  have "\<exists>vv. dom vv = set (inputs c)
         \<and> (\<forall>j<?k. vv (inputs c ! j) = Some (odd (i div 2 ^ (?k - 1 - j))))
         \<and> ?rows ! i = vv(''Output'' \<mapsto> evaluate (output_gate c) vv)"
    if i: "i < 2 ^ ?k" for i
  proof (intro exI conjI)
    show "dom (?vv i) = set (inputs c)" by (rule assign_values_dom)
    show "\<forall>j<?k. ?vv i (inputs c ! j) = Some (odd (i div 2 ^ (?k - 1 - j)))"
      using assign_values_nth[OF assms] format_0b_nth[OF i] by simp
    from i show "?rows ! i = (?vv i)(''Output'' \<mapsto> evaluate (output_gate c) (?vv i))"
      by simp
  qed
  then show ?thesis by (subst generate_truth_table_eq) (intro exI[of _ ?rows], simp)
qed

text \<open>
  The table without the collision: when no input variable is itself named \<^verbatim>\<open>Output\<close>,
  row \<open>i\<close> maps \<open>inputs[j]\<close> to bit \<open>j\<close> (from the most significant) of \<open>i\<close> and
  \<^verbatim>\<open>Output\<close> to the value of the output gate under those values.
\<close>

lemma truth_table_rows_no_collision:
  assumes "distinct (inputs c)" and "''Output'' \<notin> set (inputs c)"
  shows "\<exists>rows. generate_truth_table c = Inr rows \<and> length rows = 2 ^ length (inputs c)
     \<and> (\<forall>i<2 ^ length (inputs c).
           (\<forall>j<length (inputs c).
               (rows ! i) (inputs c ! j) = Some (odd (i div 2 ^ (length (inputs c) - 1 - j))))
         \<and> dom (rows ! i) = insert ''Output'' (set (inputs c))
         \<and> (rows ! i) ''Output'' = Some (evaluate (output_gate c) ((rows ! i) |` set (inputs c))))"
proof -
  from truth_table_rows[OF assms(1)] obtain rows where r: "generate_truth_table c = Inr rows"
    "length rows = 2 ^ length (inputs c)"
    and rows: "\<And>i. i < 2 ^ length (inputs c) \<Longrightarrow> \<exists>vv.
           dom vv = set (inputs c)
         \<and> (\<forall>j<length (inputs c).
               vv (inputs c ! j) = Some (odd (i div 2 ^ (length (inputs c) - 1 - j))))
         \<and> rows ! i = vv(''Output'' \<mapsto> evaluate (output_gate c) vv)"
    by blast
  have "(\<forall>j<length (inputs c).
               (rows ! i) (inputs c ! j) = Some (odd (i div 2 ^ (length (inputs c) - 1 - j))))
         \<and> dom (rows ! i) = insert ''Output'' (set (inputs c))
         \<and> (rows ! i) ''Output'' = Some (evaluate (output_gate c) ((rows ! i) |` set (inputs c)))"
    if "i < 2 ^ length (inputs c)" for i
  proof -
    from rows[OF that] obtain vv where d: "dom vv = set (inputs c)"
      and b: "\<forall>j<length (inputs c).
               vv (inputs c ! j) = Some (odd (i div 2 ^ (length (inputs c) - 1 - j)))"
      and ri: "rows ! i = vv(''Output'' \<mapsto> evaluate (output_gate c) vv)"
      by blast
    have "vv x = None" if "x \<notin> set (inputs c)" for x
      using that d by (metis domIff)
    with assms(2) have re: "(vv(''Output'' \<mapsto> evaluate (output_gate c) vv)) |` set (inputs c) = vv"
      by (auto simp: restrict_map_def fun_eq_iff)
    have "(rows ! i) (inputs c ! j) = Some (odd (i div 2 ^ (length (inputs c) - 1 - j)))"
      if "j < length (inputs c)" for j
    proof -
      from that assms(2) have "inputs c ! j \<noteq> ''Output''" by (metis nth_mem)
      with b that show ?thesis by (simp add: ri)
    qed
    moreover have "dom (rows ! i) = insert ''Output'' (set (inputs c))"
      by (simp add: ri d)
    moreover have "(rows ! i) ''Output'' = Some (evaluate (output_gate c) ((rows ! i) |` set (inputs c)))"
      unfolding ri re by simp
    ultimately show ?thesis by blast
  qed
  with r show ?thesis by blast
qed

text \<open>
  C3. The claim: row \<open>i\<close> assigns to \<open>inputs[j]\<close> the bit \<open>j\<close> of \<open>i\<close>, and its output
  field is the value of the output gate. A row is one dictionary, and \<^verbatim>\<open>row['Output'] = output\<close>
  is stored under a key that an input variable may have: for the expression \<^verbatim>\<open>NOT Output\<close>
  the inputs are \<^verbatim>\<open>['Output']\<close>, and row 0 (bit 0, the variable false) holds
  \<^verbatim>\<open>Output \<mapsto> True\<close>, row 1 (bit 1, the variable true) holds \<^verbatim>\<open>Output \<mapsto> False\<close>: the
  value of the variable is overwritten by the output.
\<close>

theorem C3_output_key_overwrites_variable:
  "map_sum id (\<lambda>(c, rows). (inputs c, map (\<lambda>row. map row (inputs c)) rows))
     (main_steps ''NOT Output'') = Inr ([''Output''], [[Some True], [Some False]])"
  by code_simp

section \<open>Parsed expressions have an identifier\<close>

lemma idents_in_simps [simp]:
  "idents_in (N_IDENTIFIER v) e = (identifier_shaped v \<and> sublist v e)"
  "idents_in (N_NOT r) e = idents_in r e"
  "idents_in (N_AND l r) e = (idents_in l e \<and> idents_in r e)"
  "idents_in (N_OR l r) e = (idents_in l e \<and> idents_in r e)"
  by (auto simp: idents_in_def)

lemma match_identifier_shape:
  assumes "match_identifier r = Some g"
  shows "identifier_shaped g \<and> prefix g r"
proof -
  from assms obtain c cs where r: "r = c # cs" and c: "is_ident_start c"
    and g: "g = c # takeWhile is_ident_char cs"
    by (auto simp: match_identifier_def split: list.splits if_splits)
  have "list_all is_ident_char (takeWhile is_ident_char cs)"
    by (auto simp: list_all_iff dest: set_takeWhileD)
  moreover have "prefix (takeWhile is_ident_char cs) cs"
    by (metis prefixI takeWhile_dropWhile_id)
  ultimately show ?thesis using c by (simp add: identifier_shaped_def g r)
qed

lemma keyword_token_not_identifier: "keyword_token g \<noteq> T_IDENTIFIER v"
  by (simp add: keyword_token_def)

lemma next_token_token_in_expression:
  assumes "next_token st = Inr st'"
  shows "token_in_expression st'"
proof (cases "current_token st'")
  case None
  then show ?thesis by (simp add: token_in_expression_def)
next
  case (Some t)
  show ?thesis
  proof (cases t)
    case (T_IDENTIFIER v)
    let ?e = "expression st"
    let ?p = "skip_spaces ?e (pos st)"
    from assms Some T_IDENTIFIER have m: "match_identifier (drop ?p ?e) = Some v"
      and e: "expression st' = ?e"
      by (auto simp: next_token_def Let_def keyword_token_not_identifier
               split: if_splits option.splits)
    from match_identifier_shape[OF m] obtain ss where "identifier_shaped v" "drop ?p ?e = v @ ss"
      by (auto simp: prefix_def)
    moreover have "?e = take ?p ?e @ drop ?p ?e" by simp
    ultimately have "identifier_shaped v" "?e = take ?p ?e @ v @ ss" by simp_all
    then have "identifier_shaped v \<and> sublist v ?e" unfolding sublist_def by blast
    with Some T_IDENTIFIER e show ?thesis by (simp add: token_in_expression_def)
  qed (simp_all add: Some token_in_expression_def)
qed

lemma parser_idents:
  "expr n st = Some (Inr (nd, st')) \<Longrightarrow> token_in_expression st \<Longrightarrow>
     token_in_expression st' \<and> idents_in nd (expression st)"
  "expr_while n l st = Some (Inr (nd, st')) \<Longrightarrow> token_in_expression st \<Longrightarrow>
     idents_in l (expression st) \<Longrightarrow>
     token_in_expression st' \<and> idents_in nd (expression st)"
  "term_fn n st = Some (Inr (nd, st')) \<Longrightarrow> token_in_expression st \<Longrightarrow>
     token_in_expression st' \<and> idents_in nd (expression st)"
  "term_while n l st = Some (Inr (nd, st')) \<Longrightarrow> token_in_expression st \<Longrightarrow>
     idents_in l (expression st) \<Longrightarrow>
     token_in_expression st' \<and> idents_in nd (expression st)"
  "factor n st = Some (Inr (nd, st')) \<Longrightarrow> token_in_expression st \<Longrightarrow>
     token_in_expression st' \<and> idents_in nd (expression st)"
proof (induction n st and n l st and n st and n l st and n st
       arbitrary: nd st' and nd st' and nd st' and nd st' and nd st'
       rule: expr_expr_while_term_fn_term_while_factor.induct)
  case (2 n st)
  from "2.prems"(1) obtain left st1 where t: "term_fn n st = Some (Inr (left, st1))"
    and w: "expr_while n left st1 = Some (Inr (nd, st'))"
    by (auto split: option.splits sum.splits)
  from "2.IH"(1)[OF t "2.prems"(2)] have a: "token_in_expression st1" "idents_in left (expression st)"
    by simp_all
  from parser_decrease(3)[OF t] have e: "expression st1 = expression st" by simp
  from "2.IH"(2)[OF t refl refl w a(1)] a(2) e show ?case by simp
next
  case (4 n left st)
  show ?case
  proof (cases "current_token st = Some T_OR")
    case True
    with "4.prems"(1) obtain st1 right st2 where nt: "next_token st = Inr st1"
      and t: "term_fn n st1 = Some (Inr (right, st2))"
      and w: "expr_while n (N_OR left right) st2 = Some (Inr (nd, st'))"
      by (auto split: option.splits sum.splits)
    from nt have e1: "expression st1 = expression st" by (rule next_token_expression)
    from "4.IH"(1)[OF True nt t next_token_token_in_expression[OF nt]]
    have a: "token_in_expression st2" "idents_in right (expression st)" by (simp_all add: e1)
    from parser_decrease(3)[OF t] e1 have e2: "expression st2 = expression st" by simp
    from "4.IH"(2)[OF True nt t refl refl w a(1)] a(2) "4.prems"(3) e2 show ?thesis by simp
  next
    case False
    with "4.prems" show ?thesis by simp
  qed
next
  case (6 n st)
  from "6.prems"(1) obtain left st1 where t: "factor n st = Some (Inr (left, st1))"
    and w: "term_while n left st1 = Some (Inr (nd, st'))"
    by (auto split: option.splits sum.splits)
  from "6.IH"(1)[OF t "6.prems"(2)] have a: "token_in_expression st1" "idents_in left (expression st)"
    by simp_all
  from parser_decrease(5)[OF t] have e: "expression st1 = expression st" by simp
  from "6.IH"(2)[OF t refl refl w a(1)] a(2) e show ?case by simp
next
  case (8 n left st)
  show ?case
  proof (cases "current_token st = Some T_AND")
    case True
    with "8.prems"(1) obtain st1 right st2 where nt: "next_token st = Inr st1"
      and t: "factor n st1 = Some (Inr (right, st2))"
      and w: "term_while n (N_AND left right) st2 = Some (Inr (nd, st'))"
      by (auto split: option.splits sum.splits)
    from nt have e1: "expression st1 = expression st" by (rule next_token_expression)
    from "8.IH"(1)[OF True nt t next_token_token_in_expression[OF nt]]
    have a: "token_in_expression st2" "idents_in right (expression st)" by (simp_all add: e1)
    from parser_decrease(5)[OF t] e1 have e2: "expression st2 = expression st" by simp
    from "8.IH"(2)[OF True nt t refl refl w a(1)] a(2) "8.prems"(3) e2 show ?thesis by simp
  next
    case False
    with "8.prems" show ?thesis by simp
  qed
next
  case (10 n st)
  consider (a) "current_token st = Some T_NOT"
    | (b) "current_token st = Some T_LPAREN"
    | (c) v where "current_token st = Some (T_IDENTIFIER v)"
    | (d) "current_token st \<noteq> Some T_NOT" "current_token st \<noteq> Some T_LPAREN"
          "\<forall>v. current_token st \<noteq> Some (T_IDENTIFIER v)"
    by blast
  then show ?case
  proof cases
    case a
    with "10.prems"(1) obtain st1 right where nt: "next_token st = Inr st1"
      and f: "factor n st1 = Some (Inr (right, st'))" and nd: "nd = N_NOT right"
      by (auto split: option.splits sum.splits)
    from nt have e1: "expression st1 = expression st" by (rule next_token_expression)
    from "10.IH"(1)[OF a nt f next_token_token_in_expression[OF nt]] e1 nd show ?thesis by simp
  next
    case b
    with "10.prems"(1) obtain st1 st2 where nt: "next_token st = Inr st1"
      and e: "expr n st1 = Some (Inr (nd, st2))"
      and nt2: "next_token st2 = Inr st'"
      by (auto split: option.splits sum.splits if_splits)
    from nt have e1: "expression st1 = expression st" by (rule next_token_expression)
    from b have "current_token st \<noteq> Some T_NOT" by simp
    from "10.IH"(2)[OF this b nt e next_token_token_in_expression[OF nt]] e1
      next_token_token_in_expression[OF nt2]
    show ?thesis by simp
  next
    case c
    with "10.prems"(1) have nt: "next_token st = Inr st'" and nd: "nd = N_IDENTIFIER v"
      by (auto split: option.splits sum.splits)
    from c "10.prems"(2) have "identifier_shaped v \<and> sublist v (expression st)"
      by (simp add: token_in_expression_def)
    with next_token_token_in_expression[OF nt] nd show ?thesis by simp
  next
    case d
    with "10.prems"(1) show ?thesis
      by (auto split: option.splits token.splits)
  qed
qed simp_all

lemma parse_idents_in:
  assumes "parse s = Inr (ast, st)"
  shows "idents_in ast s"
proof -
  have pf: "parse_fuel (3 * length s + 6) s = Some (Inr (ast, st))"
    using parse_fuel_enough[of s "3 * length s + 6"] assms by simp
  then obtain st0 where nt: "next_token (LogicParser s) = Inr st0"
    and e: "expr (3 * length s + 6) st0 = Some (Inr (ast, st))"
    by (auto simp: parse_fuel_def split: sum.splits)
  from next_token_start_remaining(2)[OF nt] have "expression st0 = s" .
  with parser_idents(1)[OF e next_token_token_in_expression[OF nt]] show ?thesis by simp
qed

lemma idents_nonempty: "idents nd \<noteq> []"
  by (induction nd) auto

text \<open>
  C10. When \<^verbatim>\<open>parse\<close> returns a tree for a string, the tree has at least one identifier,
  and each of its identifiers is an identifier-shaped piece of the string; the circuit built
  from the tree has a non-empty gate list and at least one input, and its truth table is
  produced and has \<open>2 ^ k \<ge> 2\<close> rows.
\<close>

theorem C10_parsed_circuit_nonempty:
  assumes "parse s = Inr (ast, st)"
  shows "let c = generate (CircuitGenerator ast) in
       idents ast \<noteq> [] \<and> idents_in ast s
     \<and> gates c \<noteq> [] \<and> inputs c \<noteq> [] \<and> 1 \<le> length (inputs c)
     \<and> (\<exists>rows. generate_truth_table c = Inr rows
            \<and> main_steps s = Inr (c, rows)
            \<and> length rows = 2 ^ length (inputs c) \<and> 2 \<le> length rows)"
proof -
  define c where "c = generate (CircuitGenerator ast)"
  note s = generate_spec[OF c_def]
  have i: "idents ast \<noteq> []" by (rule idents_nonempty)
  from s(1) have g: "gates c \<noteq> []" by (simp add: postorder_last)
  from i have "set (idents ast) \<noteq> {}" by simp
  then have n: "inputs c \<noteq> []" unfolding s(4) by simp
  then have k: "1 \<le> length (inputs c)" by (cases "inputs c") auto
  let ?rows = "map (\<lambda>i. (assign_values (inputs c) (format_0b (length (inputs c)) i))
                     (''Output'' \<mapsto> evaluate (output_gate c)
                         (assign_values (inputs c) (format_0b (length (inputs c)) i))))
              [0..<2 ^ length (inputs c)]"
  have r: "generate_truth_table c = Inr ?rows" by (rule generate_truth_table_eq)
  have l: "length ?rows = 2 ^ length (inputs c)" by simp
  from k have "(2::nat) ^ 1 \<le> 2 ^ length (inputs c)" by (rule power_increasing) simp
  with l have l2: "2 \<le> length ?rows" by simp
  from assms r have m: "main_steps s = Inr (c, ?rows)"
    by (simp add: main_steps_def c_def Let_def)
  from r m l l2 have "\<exists>rows. generate_truth_table c = Inr rows \<and> main_steps s = Inr (c, rows)
      \<and> length rows = 2 ^ length (inputs c) \<and> 2 \<le> length rows"
    by blast
  with i g n k parse_idents_in[OF assms] show ?thesis
    unfolding Let_def c_def[symmetric] by blast
qed

text \<open>The theorem on the string \<^verbatim>\<open>A AND B\<close>.\<close>

theorem C10_parsed_circuit_nonempty_witness:
  "parse ''A AND B'' =
     Inr (N_AND (N_IDENTIFIER ''A'') (N_IDENTIFIER ''B''),
          \<lparr>expression = ''A AND B'', pos = 7, current_token = None\<rparr>)
   \<and> inputs (generate (CircuitGenerator (N_AND (N_IDENTIFIER ''A'') (N_IDENTIFIER ''B'')))) \<noteq> []
   \<and> (\<exists>rows. main_steps ''A AND B'' =
          Inr (generate (CircuitGenerator (N_AND (N_IDENTIFIER ''A'') (N_IDENTIFIER ''B''))), rows)
        \<and> 2 \<le> length rows)"
proof -
  have p: "parse ''A AND B'' =
     Inr (N_AND (N_IDENTIFIER ''A'') (N_IDENTIFIER ''B''),
          \<lparr>expression = ''A AND B'', pos = 7, current_token = None\<rparr>)"
    by code_simp
  from C10_parsed_circuit_nonempty [OF p] p show ?thesis
    unfolding Let_def by blast
qed

end
